theory Spec2Isabelle
  imports Main "HOL-Library.Sublist"
begin

chapter \<open>The program\<close>

section \<open>Python values used by the parser library\<close>

text \<open>
  The library under verification is \<^verbatim>\<open>src/parser/parser.py\<close>: a source stream
  over a string, a longest-match lexer, a caching token stream and a small algebra of
  backtracking parser nodes. Python's \<^verbatim>\<open>int\<close> is modelled by \<^typ>\<open>int\<close>, a Python
  \<^verbatim>\<open>str\<close> by \<^typ>\<open>string\<close> (one list element per character of the text), and every
  exception the code can raise is a value of the type \<open>error\<close>; a function that can raise
  returns \<open>error + 'a\<close> with \<open>Inl\<close> for the exception.
\<close>

record Position =
  line :: int
  column :: int

datatype error =
    InvalidPosition Position      \<comment> \<open>\<^verbatim>\<open>Exception(f"Invalid position: {pos}")\<close>\<close>
  | IndexError                    \<comment> \<open>a list index out of range\<close>
  | ValueError                    \<comment> \<open>\<^verbatim>\<open>StringIO.seek\<close> with a negative position\<close>
  | AssertionError string         \<comment> \<open>a failed \<^verbatim>\<open>assert\<close>\<close>
  | KeyError string               \<comment> \<open>a missing dictionary key\<close>
  | TypeError                     \<comment> \<open>an operation applied to a value of the wrong shape\<close>
  | CompileError                  \<comment> \<open>\<^verbatim>\<open>re.error\<close> from \<^verbatim>\<open>re.compile\<close>\<close>
  | ParserError Position string   \<comment> \<open>\<^verbatim>\<open>Parser.Error(position, msg)\<close>\<close>

text \<open>Python list indexing \<^verbatim>\<open>xs[i]\<close>: a negative index counts from the end.\<close>

definition py_index :: "'a list \<Rightarrow> int \<Rightarrow> error + 'a" where
  "py_index xs i =
     (if 0 \<le> i \<and> i < int (length xs) then Inr (xs ! nat i)
      else if i < 0 \<and> - int (length xs) \<le> i then Inr (xs ! nat (int (length xs) + i))
      else Inl IndexError)"

section \<open>StringIO\<close>

text \<open>
  \<^verbatim>\<open>io.StringIO\<close> with the default \<^verbatim>\<open>newline='\n'\<close>: a buffer and a cursor, which
  is never negative. \<^verbatim>\<open>read(n)\<close> returns at most \<open>n\<close> characters from the cursor and
  moves the cursor past them, a negative \<open>n\<close> reads to the end; \<^verbatim>\<open>seek\<close> raises
  \<^verbatim>\<open>ValueError\<close> on a negative position; \<^verbatim>\<open>readlines\<close> cuts the remainder after
  every line feed.
\<close>

record StringIO =
  buf :: string
  pos :: nat

definition sio_tell :: "StringIO \<Rightarrow> int" where
  "sio_tell io = int (pos io)"

definition sio_seek :: "StringIO \<Rightarrow> int \<Rightarrow> error + StringIO" where
  "sio_seek io p = (if p < 0 then Inl ValueError else Inr (io\<lparr>pos := nat p\<rparr>))"

definition sio_read :: "StringIO \<Rightarrow> int \<Rightarrow> string \<times> StringIO" where
  "sio_read io n =
     (let rest = drop (pos io) (buf io);
          got = (if n < 0 then rest else take (nat n) rest)
      in (got, io\<lparr>pos := pos io + length got\<rparr>))"

definition newline :: char where
  "newline = CHR 0x0A"

fun split_lines :: "string \<Rightarrow> string list" where
  "split_lines [] = []"
| "split_lines (c # cs) =
     (if c = newline then [c] # split_lines cs
      else (case split_lines cs of [] \<Rightarrow> [[c]] | l # ls \<Rightarrow> (c # l) # ls))"

definition sio_readlines :: "StringIO \<Rightarrow> string list \<times> StringIO" where
  "sio_readlines io =
     (let rest = drop (pos io) (buf io)
      in (split_lines rest, io\<lparr>pos := pos io + length rest\<rparr>))"

section \<open>StringStream\<close>

record StringStream =
  stream :: StringIO
  ss_size :: int
  lineStarts :: "int list"

text \<open>The loop of the constructor: one more line start for every line but the last.\<close>

fun line_starts_loop :: "int list \<Rightarrow> string list \<Rightarrow> int list" where
  "line_starts_loop acc [] = acc"
| "line_starts_loop acc (l # ls) = line_starts_loop (acc @ [last acc + int (length l)]) ls"

definition StringStream_init :: "string \<Rightarrow> StringStream" where
  "StringStream_init string =
     (let io = \<lparr>buf = string, pos = 0\<rparr>;
          (lines, io1) = sio_readlines io
      in \<lparr>stream = io1\<lparr>pos := 0\<rparr>,
          ss_size = int (length string),
          lineStarts = line_starts_loop [0] (butlast lines)\<rparr>)"

text \<open>
  \<^verbatim>\<open>Peek\<close> and \<^verbatim>\<open>PeekRemainder\<close> read and then seek back to the position \<^verbatim>\<open>tell\<close> gave
  them, so they return what was read and leave the stream as it was.
\<close>

definition ss_Peek :: "StringStream \<Rightarrow> string" where
  "ss_Peek s = fst (sio_read (stream s) 1)"

definition ss_Get :: "StringStream \<Rightarrow> string \<times> StringStream" where
  "ss_Get s = (let (v, io) = sio_read (stream s) 1 in (v, s\<lparr>stream := io\<rparr>))"

definition PeekRemainder :: "StringStream \<Rightarrow> string" where
  "PeekRemainder s = fst (sio_read (stream s) (-1))"

definition Ignore :: "StringStream \<Rightarrow> int \<Rightarrow> StringStream" where
  "Ignore s amt = s\<lparr>stream := snd (sio_read (stream s) amt)\<rparr>"

definition ss_GetOffset :: "StringStream \<Rightarrow> int" where
  "ss_GetOffset s = sio_tell (stream s)"

definition ss_SetOffset :: "StringStream \<Rightarrow> int \<Rightarrow> error + StringStream" where
  "ss_SetOffset s offset =
     (case sio_seek (stream s) (max 0 (min offset (ss_size s))) of
        Inl e \<Rightarrow> Inl e
      | Inr io \<Rightarrow> Inr (s\<lparr>stream := io\<rparr>))"

definition ss_IsEOS :: "StringStream \<Rightarrow> bool" where
  "ss_IsEOS s = (ss_GetOffset s = ss_size s)"

text \<open>
  The scan of \<^verbatim>\<open>GetPosition\<close>: it stops at the first line start beyond the offset and
  returns the number of line starts passed and the last one passed.
\<close>

fun GetPosition_loop :: "int list \<Rightarrow> int \<Rightarrow> int \<Rightarrow> int \<Rightarrow> int \<times> int" where
  "GetPosition_loop [] offset ln closestLineStart = (ln, closestLineStart)"
| "GetPosition_loop (lineStart # rest) offset ln closestLineStart =
     (if lineStart > offset then (ln, closestLineStart)
      else GetPosition_loop rest offset (ln + 1) lineStart)"

definition ss_GetPosition :: "StringStream \<Rightarrow> Position" where
  "ss_GetPosition s =
     (let offset = ss_GetOffset s;
          (ln, closestLineStart) = GetPosition_loop (lineStarts s) offset 0 0
      in \<lparr>line = ln, column = offset - closestLineStart + 1\<rparr>)"

definition SetPosition :: "StringStream \<Rightarrow> Position \<Rightarrow> error + StringStream" where
  "SetPosition s p =
     (if line p > int (length (lineStarts s)) \<or> line p = 0 \<or> column p = 0
      then Inl (InvalidPosition p)
      else case py_index (lineStarts s) (line p - 1) of
        Inl e \<Rightarrow> Inl e
      | Inr lineStart \<Rightarrow>
          (case (if line p = int (length (lineStarts s)) then Inr (ss_size s)
                 else py_index (lineStarts s) (line p)) of
             Inl e \<Rightarrow> Inl e
           | Inr lineEnd \<Rightarrow>
               (let lineWidth = lineEnd - lineStart
                in if column p - 1 > lineWidth then Inl (InvalidPosition p)
                   else ss_SetOffset s (lineStart + column p - 1))))"

section \<open>Lexer\<close>

text \<open>
  A compiled regular expression is used by the lexer through \<^verbatim>\<open>search\<close> only, on a
  pattern that \<^verbatim>\<open>AddPattern\<close> anchors at the start of the text: it is modelled by the
  function from the text to the matched substring \<^verbatim>\<open>searchResult[0]\<close>, or \<open>None\<close> when
  the search finds nothing. The regular expression engine is Python's; it is a
  parameter of the model. An action receives the lexer and the match; the actions of the
  repository ignore the lexer, and the model passes the match only.
\<close>

type_synonym regex_search = "string \<Rightarrow> string option"

record Pattern =
  pat_id :: string
  regex :: regex_search
  action :: "(string \<Rightarrow> string) option"

record Token =
  patternID :: string
  position :: Position
  tok_value :: string

record Lexer =
  patternEOS :: Pattern
  patternUnknown :: Pattern
  patterns :: "Pattern list"

text \<open>Python's \<^verbatim>\<open>str\<close> of an integer, used by the f-strings of the code.\<close>

function str_nat :: "nat \<Rightarrow> string" where
  "str_nat n = (if n < 10 then [''0123456789'' ! n]
                else str_nat (n div 10) @ [''0123456789'' ! (n mod 10)])"
  by pat_completeness auto
termination
  by (relation "measure (\<lambda>n. n)") auto

declare str_nat.simps [simp del]

definition str_int :: "int \<Rightarrow> string" where
  "str_int i = (if i < 0 then CHR ''-'' # str_nat (nat (- i)) else str_nat (nat i))"

definition CreatePatternIDFromIdx :: "int \<Rightarrow> string" where
  "CreatePatternIDFromIdx idx = ''<Pattern: '' @ str_int idx @ ''>''"

definition EOS_PATTERN_ID :: string where
  "EOS_PATTERN_ID = ''<EOS>''"

definition UNKNOWN_PATTERN_ID :: string where
  "UNKNOWN_PATTERN_ID = ''<UNKNOWN>''"

definition Lexer_init :: "(string \<Rightarrow> string) option \<Rightarrow> (string \<Rightarrow> string) option \<Rightarrow> Lexer" where
  "Lexer_init onEOS onUnknown =
     \<lparr>patternEOS = \<lparr>pat_id = EOS_PATTERN_ID, regex = (\<lambda>s. Some []), action = onEOS\<rparr>,
      patternUnknown = \<lparr>pat_id = UNKNOWN_PATTERN_ID, regex = (\<lambda>s. Some []), action = onUnknown\<rparr>,
      patterns = []\<rparr>"

text \<open>
  \<^verbatim>\<open>AddPattern\<close>. \<open>re_compile\<close> stands for \<^verbatim>\<open>re.compile\<close>, which raises on a malformed
  expression. The assertion on the id comes first, as in the code.
\<close>

definition AddPattern ::
  "(string \<Rightarrow> error + regex_search) \<Rightarrow> Lexer \<Rightarrow> string \<Rightarrow> (string \<Rightarrow> string) option
     \<Rightarrow> string option \<Rightarrow> error + (string \<times> Lexer)" where
  "AddPattern re_compile lx regex_src act pid =
     (let patternID = (case pid of None \<Rightarrow> CreatePatternIDFromIdx (int (length (patterns lx)))
                                 | Some i \<Rightarrow> i)
      in if patternID \<in> set (map pat_id (patterns lx))
         then Inl (AssertionError (''Pattern with id '' @ [CHR 0x27] @ patternID @ [CHR 0x27] @ '' already exists!''))
         else (case re_compile (''^('' @ regex_src @ '')'') of
                 Inl e \<Rightarrow> Inl e
               | Inr r \<Rightarrow> Inr (patternID,
                   lx\<lparr>patterns := patterns lx @ [\<lparr>pat_id = patternID, regex = r, action = act\<rparr>]\<rparr>)))"

text \<open>
  The loop of \<^verbatim>\<open>Lex\<close> over the registered patterns; the accumulator is
  \<^verbatim>\<open>(matchingPattern, matchValue, greatestPatternMatchLength)\<close>.
\<close>

fun Lex_loop :: "Pattern list \<Rightarrow> string \<Rightarrow> Pattern option \<times> string \<times> nat
    \<Rightarrow> Pattern option \<times> string \<times> nat" where
  "Lex_loop [] string acc = acc"
| "Lex_loop (p # ps) string (matchingPattern, matchValue, greatest) =
     (case regex p string of
        None \<Rightarrow> Lex_loop ps string (matchingPattern, matchValue, greatest)
      | Some m \<Rightarrow>
          if Option.is_none matchingPattern \<or> length m > greatest
          then Lex_loop ps string (Some p, m, length m)
          else Lex_loop ps string (matchingPattern, matchValue, greatest))"

definition Lex :: "Lexer \<Rightarrow> StringStream \<Rightarrow> Token \<times> StringStream" where
  "Lex lx s =
     (let streamPos = ss_GetPosition s;
          (matchingPattern, matchValue) =
            (if ss_IsEOS s then (patternEOS lx, [])
             else (case Lex_loop (patterns lx) (PeekRemainder s) (None, [], 0) of
                     (None, _, _) \<Rightarrow> (patternUnknown lx, ss_Peek s)
                   | (Some p, m, _) \<Rightarrow> (p, m)));
          s' = Ignore s (int (length matchValue));
          v = (case action matchingPattern of None \<Rightarrow> matchValue | Some f \<Rightarrow> f matchValue)
      in (\<lparr>patternID = pat_id matchingPattern, position = streamPos, tok_value = v\<rparr>, s'))"

section \<open>TokenStream\<close>

text \<open>
  The token stream owns a source stream, the cache \<^verbatim>\<open>__tokens\<close> of the tokens lexed so
  far and the cursor \<^verbatim>\<open>__offset\<close> into the cache. The cursor starts at 0 and is only
  ever set to a successor, to the last index of a non-empty cache or to a value clamped
  at 0 from below: it is a natural number.
\<close>

record TokenStream =
  lexer :: Lexer
  ts_stream :: StringStream
  ts_offset :: nat
  tokens :: "Token list"
  ignores :: "string list"

definition TokenStream_init :: "Lexer \<Rightarrow> string \<Rightarrow> string list option \<Rightarrow> error + TokenStream" where
  "TokenStream_init lx string ign =
     (let igs = (case ign of None \<Rightarrow> [] | Some l \<Rightarrow> l)
      in if EOS_PATTERN_ID \<in> set igs
         then Inl (AssertionError (EOS_PATTERN_ID @ '' cannot be ignored!''))
         else Inr \<lparr>lexer = lx, ts_stream = StringStream_init string, ts_offset = 0,
                   tokens = [], ignores = igs\<rparr>)"

definition ts_IsEOS :: "TokenStream \<Rightarrow> bool" where
  "ts_IsEOS s = (length (tokens s) \<noteq> 0 \<and> patternID (last (tokens s)) = EOS_PATTERN_ID)"

text \<open>The inner loop of \<^verbatim>\<open>Get\<close>: lex until the cache reaches the cursor or holds EOS.\<close>

function ts_fill :: "TokenStream \<Rightarrow> TokenStream" where
  "ts_fill s =
     (if length (tokens s) \<le> ts_offset s \<and> \<not> ts_IsEOS s
      then ts_fill (s\<lparr>ts_stream := snd (Lex (lexer s) (ts_stream s)),
                      tokens := tokens s @ [fst (Lex (lexer s) (ts_stream s))]\<rparr>)
      else s)"
  by pat_completeness auto
termination
  by (relation "measure (\<lambda>s. Suc (ts_offset s) - length (tokens s))") auto

declare ts_fill.simps [simp del]

text \<open>
  \<^verbatim>\<open>Get\<close>. The outer \<^verbatim>\<open>while True\<close> need not end (a lexer can produce ignored tokens
  for ever): the result is \<open>None\<close> when it does not.
\<close>

partial_function (option) ts_Get :: "TokenStream \<Rightarrow> ((error + Token) \<times> TokenStream) option" where
  "ts_Get s =
     (let s1 = ts_fill s
      in if ts_offset s1 < length (tokens s1)
         then (let token = tokens s1 ! ts_offset s1;
                   s2 = s1\<lparr>ts_offset := (if ts_IsEOS s1 then length (tokens s1) - 1
                                          else ts_offset s1 + 1)\<rparr>
               in if patternID token \<in> set (ignores s2) then ts_Get s2
                  else Some (Inr token, s2))
         else Some (Inl IndexError, s1))"

definition ts_Peek :: "TokenStream \<Rightarrow> ((error + Token) \<times> TokenStream) option" where
  "ts_Peek s =
     (case ts_Get s of
        None \<Rightarrow> None
      | Some (Inl e, s') \<Rightarrow> Some (Inl e, s')
      | Some (Inr token, s') \<Rightarrow> Some (Inr token, s'\<lparr>ts_offset := ts_offset s\<rparr>))"

definition ts_GetOffset :: "TokenStream \<Rightarrow> int" where
  "ts_GetOffset s = int (ts_offset s)"

definition ts_SetOffset :: "TokenStream \<Rightarrow> int \<Rightarrow> TokenStream" where
  "ts_SetOffset s offset = s\<lparr>ts_offset := nat (max 0 (min offset (int (length (tokens s)) - 1)))\<rparr>"

definition ts_GetPosition :: "TokenStream \<Rightarrow> ((error + Position) \<times> TokenStream) option" where
  "ts_GetPosition s =
     (case ts_Peek s of
        None \<Rightarrow> None
      | Some (Inl e, s') \<Rightarrow> Some (Inl e, s')
      | Some (Inr token, s') \<Rightarrow> Some (Inr (position token), s'))"

section \<open>Parser nodes\<close>

text \<open>
  The values parsers return are Python objects: token values (strings), lists, tuples,
  \<^verbatim>\<open>Parser.Result\<close> objects, and whatever a transformer makes of them. A \<^verbatim>\<open>Result\<close> is
  a position and a value. A transformer is a Python callable and can raise.
\<close>

datatype val =
    VStr string
  | VInt int
  | VBool bool
  | VNone
  | VList "val list"
  | VTuple "val list"
  | VResult Position val

type_synonym Result = "Position \<times> val"

definition to_val :: "Result \<Rightarrow> val" where
  "to_val r = VResult (fst r) (snd r)"

type_synonym Transformer = "val \<Rightarrow> error + val"

text \<open>
  A \<^verbatim>\<open>Lazy\<close> node holds a thunk that is called at every parse; in the grammars of the
  repository the thunk looks a rule up in a dictionary filled after the nodes are made
  (\<^verbatim>\<open>lambda: parsers["object"]\<close>). The node is modelled by the key, and parsing takes
  the dictionary as an argument. The node classes store \<^verbatim>\<open>[]\<close> for an absent list of
  ignored patterns.
\<close>

datatype Parser =
    Terminal string string "string option" "Transformer option" "string list"
  | Sequence string "Parser list" "Transformer option" "string list"
  | Choice string "Parser list" bool "Transformer option" "string list"
  | Quantified string Parser int "int option" "Transformer option" "string list"
  | Separated string Parser Parser "Transformer option" "string list"
  | Lazy string string

fun GetName :: "Parser \<Rightarrow> string" where
  "GetName (Terminal name _ _ _ _) = name"
| "GetName (Sequence name _ _ _) = name"
| "GetName (Choice name _ _ _ _) = name"
| "GetName (Quantified name _ _ _ _ _) = name"
| "GetName (Separated name _ _ _ _) = name"
| "GetName (Lazy name _) = name"

type_synonym 'a outcome = "((error + 'a) \<times> TokenStream) option"

subsection \<open>Parser.Error\<close>

definition Position_str :: "Position \<Rightarrow> string" where
  "Position_str p = ''('' @ str_int (line p) @ '', '' @ str_int (column p) @ '')''"

definition Error_str :: "Position \<Rightarrow> string \<Rightarrow> string" where
  "Error_str p msg = ''Error @ '' @ Position_str p @ '': '' @ msg"

definition Combine :: "Position \<Rightarrow> string \<Rightarrow> Position \<Rightarrow> string \<Rightarrow> error" where
  "Combine p1 msg1 p2 msg2 = ParserError p1 (msg1 @ [newline] @ Error_str p2 msg2)"

definition Expectation_msg :: "string \<Rightarrow> string \<Rightarrow> string" where
  "Expectation_msg expected found = ''Expected '' @ expected @ '', but found '' @ found"

definition Expectation :: "string \<Rightarrow> string \<Rightarrow> Position \<Rightarrow> error" where
  "Expectation expected found p = ParserError p (Expectation_msg expected found)"

subsection \<open>Parser.parse\<close>

text \<open>The loop \<^verbatim>\<open>while stream.Peek().patternID in self.__ignores: stream.Get()\<close>.\<close>

partial_function (option) skip_ignored :: "string list \<Rightarrow> TokenStream \<Rightarrow> unit outcome" where
  "skip_ignored ign s =
     (case ts_Peek s of
        None \<Rightarrow> None
      | Some (Inl e, s1) \<Rightarrow> Some (Inl e, s1)
      | Some (Inr token, s1) \<Rightarrow>
          if patternID token \<in> set ign
          then (case ts_Get s1 of
                  None \<Rightarrow> None
                | Some (Inl e, s2) \<Rightarrow> Some (Inl e, s2)
                | Some (Inr _, s2) \<Rightarrow> skip_ignored ign s2)
          else Some (Inr (), s1))"

text \<open>
  The \<^verbatim>\<open>except Parser.Error\<close> clause of \<^verbatim>\<open>parse\<close>: any other exception passes
  through with the stream as it is.
\<close>

definition parse_except :: "string \<Rightarrow> int \<Rightarrow> error \<Rightarrow> TokenStream \<Rightarrow> Result outcome" where
  "parse_except name startOffset e s =
     (case e of
        ParserError p msg \<Rightarrow>
          (case ts_GetPosition (ts_SetOffset s startOffset) of
             None \<Rightarrow> None
           | Some (Inl e', s') \<Rightarrow> Some (Inl e', s')
           | Some (Inr here, s') \<Rightarrow>
               Some (Inl (Combine here (''Unable to parse '' @ name) p msg), s'))
      | _ \<Rightarrow> Some (Inl e, s))"

definition apply_transformer :: "Transformer option \<Rightarrow> val \<Rightarrow> error + val" where
  "apply_transformer tr v = (case tr of None \<Rightarrow> Inr v | Some f \<Rightarrow> f v)"

definition Parser_parse ::
  "(Position \<Rightarrow> TokenStream \<Rightarrow> Result outcome) \<Rightarrow> string \<Rightarrow> Transformer option \<Rightarrow> string list
     \<Rightarrow> TokenStream \<Rightarrow> Result outcome" where
  "Parser_parse parse_body name tr ign s =
     (let startOffset = ts_GetOffset s
      in case skip_ignored ign s of
           None \<Rightarrow> None
         | Some (Inl e, s1) \<Rightarrow> parse_except name startOffset e s1
         | Some (Inr _, s1) \<Rightarrow>
             (case ts_GetPosition s1 of
                None \<Rightarrow> None
              | Some (Inl e, s2) \<Rightarrow> parse_except name startOffset e s2
              | Some (Inr start, s2) \<Rightarrow>
                  (case parse_body start s2 of
                     None \<Rightarrow> None
                   | Some (Inl e, s3) \<Rightarrow> parse_except name startOffset e s3
                   | Some (Inr result, s3) \<Rightarrow>
                       (case apply_transformer tr (snd result) of
                          Inl e \<Rightarrow> parse_except name startOffset e s3
                        | Inr v \<Rightarrow> Some (Inr (fst result, v), s3)))))"

subsection \<open>The node classes\<close>

definition Terminal_parse :: "string \<Rightarrow> string option \<Rightarrow> Position \<Rightarrow> TokenStream \<Rightarrow> Result outcome" where
  "Terminal_parse pid v start s =
     (case ts_Get s of
        None \<Rightarrow> None
      | Some (Inl e, s') \<Rightarrow> Some (Inl e, s')
      | Some (Inr token, s') \<Rightarrow>
          if patternID token \<noteq> pid
          then (let expected = (case v of Some x \<Rightarrow> pid @ ''('' @ x @ '')'' | None \<Rightarrow> []);
                    found = patternID token
                      @ (if tok_value token \<noteq> [] then ''('' @ tok_value token @ '')'' else [])
                in Some (Inl (Expectation expected found (position token)), s'))
          else (case v of
                  Some x \<Rightarrow>
                    if tok_value token \<noteq> x
                    then Some (Inl (Expectation x (tok_value token) (position token)), s')
                    else Some (Inr (position token, VStr (tok_value token)), s')
                | None \<Rightarrow> Some (Inr (position token, VStr (tok_value token)), s')))"

definition results_value :: "Position \<Rightarrow> Result list \<Rightarrow> Result" where
  "results_value start results =
     (if length results \<noteq> 0 then fst (results ! 0) else start, VList (map to_val results))"

fun Sequence_loop :: "(TokenStream \<Rightarrow> Result outcome) list \<Rightarrow> Result list \<Rightarrow> TokenStream
    \<Rightarrow> (Result list) outcome" where
  "Sequence_loop [] results s = Some (Inr results, s)"
| "Sequence_loop (sub # subs) results s =
     (case sub s of
        None \<Rightarrow> None
      | Some (Inl e, s') \<Rightarrow> Some (Inl e, s')
      | Some (Inr r, s') \<Rightarrow> Sequence_loop subs (results @ [r]) s')"

definition Sequence_parse :: "(TokenStream \<Rightarrow> Result outcome) list \<Rightarrow> Position \<Rightarrow> TokenStream
    \<Rightarrow> Result outcome" where
  "Sequence_parse subs start s =
     (case Sequence_loop subs [] s of
        None \<Rightarrow> None
      | Some (Inl e, s') \<Rightarrow> Some (Inl e, s')
      | Some (Inr results, s') \<Rightarrow> Some (Inr (results_value start results), s'))"

definition join :: "string \<Rightarrow> string list \<Rightarrow> string" where
  "join sep xs = (case xs of [] \<Rightarrow> [] | y # ys \<Rightarrow> y @ concat (map (\<lambda>x. sep @ x) ys))"

fun Choice_loop :: "(string \<times> (TokenStream \<Rightarrow> Result outcome)) list \<Rightarrow> bool \<Rightarrow> error
    \<Rightarrow> TokenStream \<Rightarrow> Result outcome" where
  "Choice_loop [] tag exhausted s = Some (Inl exhausted, s)"
| "Choice_loop ((name, sub) # subs) tag exhausted s =
     (case sub s of
        None \<Rightarrow> None
      | Some (Inr result, s') \<Rightarrow>
          Some (Inr (if tag then (fst result, VTuple [VStr name, snd result]) else result), s')
      | Some (Inl (ParserError p msg), s') \<Rightarrow> Choice_loop subs tag exhausted s'
      | Some (Inl e, s') \<Rightarrow> Some (Inl e, s'))"

definition Choice_parse :: "(string \<times> (TokenStream \<Rightarrow> Result outcome)) list \<Rightarrow> bool \<Rightarrow> Position
    \<Rightarrow> TokenStream \<Rightarrow> Result outcome" where
  "Choice_parse subs tag start s =
     Choice_loop subs tag
       (ParserError start (''Expected one of ['' @ join '', '' (map fst subs) @ '']'')) s"

text \<open>
  The \<^verbatim>\<open>while\<close> loop of \<^verbatim>\<open>Quantified._parse\<close> runs for ever when the sub-parser
  keeps succeeding and there is no maximum: it takes fuel, one unit for each turn.
\<close>

definition at_least_msg :: "int \<Rightarrow> string \<Rightarrow> nat \<Rightarrow> string" where
  "at_least_msg minimum name n =
     Expectation_msg (''at least '' @ str_int minimum @ '' '' @ [CHR 0x27] @ name @ [CHR 0x27])
       (''only '' @ str_int (int n))"

fun Quantified_loop :: "nat \<Rightarrow> (TokenStream \<Rightarrow> Result outcome) \<Rightarrow> string \<Rightarrow> int \<Rightarrow> int option
    \<Rightarrow> Result list \<Rightarrow> TokenStream \<Rightarrow> (Result list) outcome" where
  "Quantified_loop 0 sub name minimum maximum results s = None"
| "Quantified_loop (Suc fuel) sub name minimum maximum results s =
     (if (case maximum of None \<Rightarrow> True | Some m \<Rightarrow> int (length results) < m)
      then (case sub s of
              None \<Rightarrow> None
            | Some (Inr r, s') \<Rightarrow> Quantified_loop fuel sub name minimum maximum (results @ [r]) s'
            | Some (Inl (ParserError p msg), s') \<Rightarrow>
                if int (length results) < minimum
                then (case ts_GetPosition s' of
                        None \<Rightarrow> None
                      | Some (Inl e, s'') \<Rightarrow> Some (Inl e, s'')
                      | Some (Inr here, s'') \<Rightarrow>
                          Some (Inl (Combine here (at_least_msg minimum name (length results))
                                       p msg), s''))
                else Some (Inr results, s')
            | Some (Inl e, s') \<Rightarrow> Some (Inl e, s'))
      else Some (Inr results, s))"

definition Quantified_parse :: "nat \<Rightarrow> (TokenStream \<Rightarrow> Result outcome) \<Rightarrow> string \<Rightarrow> int
    \<Rightarrow> int option \<Rightarrow> Position \<Rightarrow> TokenStream \<Rightarrow> Result outcome" where
  "Quantified_parse fuel sub name minimum maximum start s =
     (case Quantified_loop fuel sub name minimum maximum [] s of
        None \<Rightarrow> None
      | Some (Inl e, s') \<Rightarrow> Some (Inl e, s')
      | Some (Inr results, s') \<Rightarrow> Some (Inr (results_value start results), s'))"

text \<open>
  The three nodes \<^verbatim>\<open>Separated.__init__\<close> builds (\<^verbatim>\<open>appendage\<close>, \<^verbatim>\<open>tail\<close> and
  \<^verbatim>\<open>self.__parser\<close>) and their transformers.
\<close>

fun result_value :: "val \<Rightarrow> error + val" where
  "result_value (VResult p v) = Inr v"
| "result_value _ = Inl TypeError"

fun result_values :: "val list \<Rightarrow> error + val list" where
  "result_values [] = Inr []"
| "result_values (r # rs) =
     (case result_value r of
        Inl e \<Rightarrow> Inl e
      | Inr v \<Rightarrow> (case result_values rs of Inl e \<Rightarrow> Inl e | Inr vs \<Rightarrow> Inr (v # vs)))"

fun appendage_transformer :: Transformer where
  "appendage_transformer (VList rs) = py_index rs 1"
| "appendage_transformer (VTuple rs) = py_index rs 1"
| "appendage_transformer _ = Inl TypeError"

fun tail_transformer :: Transformer where
  "tail_transformer (VList rs) =
     (case result_values rs of Inl e \<Rightarrow> Inl e | Inr vs \<Rightarrow> Inr (VList vs))"
| "tail_transformer _ = Inl TypeError"

fun separated_transformer :: Transformer where
  "separated_transformer (VList rs) =
     (case py_index rs 0 of
        Inl e \<Rightarrow> Inl e
      | Inr r0 \<Rightarrow>
          (case py_index rs 1 of
             Inl e \<Rightarrow> Inl e
           | Inr r1 \<Rightarrow>
               (case result_value r1 of
                  Inr (VList vs) \<Rightarrow> Inr (VList (r0 # vs))
                | Inr _ \<Rightarrow> Inl TypeError
                | Inl e \<Rightarrow> Inl e)))"
| "separated_transformer _ = Inl TypeError"

definition AtLeast0 :: "string \<Rightarrow> Parser \<Rightarrow> Transformer option \<Rightarrow> string list \<Rightarrow> Parser" where
  "AtLeast0 name parser tr ign = Quantified name parser 0 None tr ign"

definition Separated_appendage :: "string \<Rightarrow> Parser \<Rightarrow> Parser \<Rightarrow> string list \<Rightarrow> Parser" where
  "Separated_appendage name val sep ign =
     Sequence name [sep, val] (Some appendage_transformer) ign"

definition Separated_tail :: "string \<Rightarrow> Parser \<Rightarrow> Parser \<Rightarrow> string list \<Rightarrow> Parser" where
  "Separated_tail name val sep ign =
     AtLeast0 name (Separated_appendage name val sep ign) (Some tail_transformer) ign"

definition Separated_parser :: "string \<Rightarrow> Parser \<Rightarrow> Parser \<Rightarrow> string list \<Rightarrow> Parser" where
  "Separated_parser name val sep ign =
     Sequence name [val, Separated_tail name val sep ign] (Some separated_transformer) ign"

definition Separated_parse :: "(TokenStream \<Rightarrow> Result outcome) \<Rightarrow> Position \<Rightarrow> TokenStream
    \<Rightarrow> Result outcome" where
  "Separated_parse inner start s =
     (case inner s of
        None \<Rightarrow> None
      | Some (Inl (ParserError p msg), s') \<Rightarrow> Some (Inr (start, VList []), s')
      | Some (Inl e, s') \<Rightarrow> Some (Inl e, s')
      | Some (Inr result, s') \<Rightarrow> Some (Inr result, s'))"

text \<open>
  \<^verbatim>\<open>parse\<close> of a node. Grammars can be cyclic and parsing need not end, so the function
  takes fuel: one unit for every nested call of \<^verbatim>\<open>parse\<close>, and the result is \<open>None\<close>
  when the fuel does not suffice. \<^verbatim>\<open>Lazy.parse\<close> overrides \<^verbatim>\<open>Parser.parse\<close> and hands
  over to the node its thunk returns.
\<close>

fun parse :: "nat \<Rightarrow> (string \<Rightarrow> Parser option) \<Rightarrow> Parser \<Rightarrow> TokenStream \<Rightarrow> Result outcome" where
  "parse 0 G p s = None"
| "parse (Suc n) G (Lazy name key) s =
     (case G key of None \<Rightarrow> Some (Inl (KeyError key), s) | Some p \<Rightarrow> parse n G p s)"
| "parse (Suc n) G (Terminal name pid v tr ign) s =
     Parser_parse (Terminal_parse pid v) name tr ign s"
| "parse (Suc n) G (Sequence name ps tr ign) s =
     Parser_parse (Sequence_parse (map (parse n G) ps)) name tr ign s"
| "parse (Suc n) G (Choice name ps tag tr ign) s =
     Parser_parse (Choice_parse (map (\<lambda>p. (GetName p, parse n G p)) ps) tag) name tr ign s"
| "parse (Suc n) G (Quantified name p minimum maximum tr ign) s =
     Parser_parse (Quantified_parse n (parse n G p) (GetName p) minimum maximum) name tr ign s"
| "parse (Suc n) G (Separated name val sep tr ign) s =
     Parser_parse (Separated_parse (parse n G (Separated_parser name val sep ign))) name tr ign s"

chapter \<open>Notions used in the statements and proofs\<close>

text \<open>
  The state a stream built by the constructor keeps: the size and the line starts are
  those of the buffer, which no operation changes.
\<close>

definition ss_wf :: "StringStream \<Rightarrow> bool" where
  "ss_wf s = (ss_size s = int (length (buf (stream s))) \<and>
              lineStarts s = lineStarts (StringStream_init (buf (stream s))))"

definition ss_inv :: "StringStream \<Rightarrow> bool" where
  "ss_inv s = (ss_wf s \<and> 0 \<le> ss_GetOffset s \<and> ss_GetOffset s \<le> int (length (buf (stream s))))"

text \<open>The id \<^verbatim>\<open>AddPattern\<close> registers: the one given, or the synthetic one.\<close>

definition given_or_synthetic_id :: "Lexer \<Rightarrow> string option \<Rightarrow> string" where
  "given_or_synthetic_id lx pid =
     (case pid of None \<Rightarrow> CreatePatternIDFromIdx (int (length (patterns lx)))
               | Some i \<Rightarrow> i)"

definition ts_next :: "TokenStream \<Rightarrow> TokenStream" where
  "ts_next s = (ts_fill s)\<lparr>ts_offset :=
      (if ts_IsEOS (ts_fill s) then length (tokens (ts_fill s)) - 1 else ts_offset s + 1)\<rparr>"

definition cache_grows :: "(TokenStream \<Rightarrow> 'a outcome) \<Rightarrow> bool" where
  "cache_grows f = (\<forall>s r s'. f s = Some (r, s') \<longrightarrow> length (tokens s) \<le> length (tokens s'))"

text \<open>
  \<open>repeated sub k s\<close> describes \<open>k\<close> calls of a sub-parser in a row, each on the stream
  the one before left, that all succeed: it gives their results and the last stream.
\<close>

fun repeated :: "(TokenStream \<Rightarrow> Result outcome) \<Rightarrow> nat \<Rightarrow> TokenStream
    \<Rightarrow> (Result list \<times> TokenStream) option" where
  "repeated sub 0 s = Some ([], s)"
| "repeated sub (Suc k) s =
     (case sub s of
        Some (Inr r, s') \<Rightarrow>
          (case repeated sub k s' of Some (rs, s'') \<Rightarrow> Some (r # rs, s'') | None \<Rightarrow> None)
      | _ \<Rightarrow> None)"

text \<open>
  The first two steps of \<^verbatim>\<open>Parser.parse\<close>, skipping the node's ignored tokens and asking
  for the position, taken together.
\<close>

definition parse_enter :: "string list \<Rightarrow> TokenStream \<Rightarrow> Position outcome" where
  "parse_enter ign s =
     (case skip_ignored ign s of
        None \<Rightarrow> None
      | Some (Inl e, s1) \<Rightarrow> Some (Inl e, s1)
      | Some (Inr _, s1) \<Rightarrow> ts_GetPosition s1)"

definition extends :: "(TokenStream \<Rightarrow> 'a outcome) \<Rightarrow> (TokenStream \<Rightarrow> 'a outcome) \<Rightarrow> bool" where
  "extends f g = (\<forall>s y. f s = Some y \<longrightarrow> g s = Some y)"

chapter \<open>Concrete inputs of the examples\<close>

text \<open>
  Search functions of three simple anchored expressions, for the concrete lexers of the
  examples below: a literal, one or more characters of a class, and zero or more
  characters of a class.
\<close>

definition re_literal :: "string \<Rightarrow> regex_search" where
  "re_literal lit s = (if take (length lit) s = lit then Some lit else None)"

definition re_plus :: "(char \<Rightarrow> bool) \<Rightarrow> regex_search" where
  "re_plus P s = (case takeWhile P s of [] \<Rightarrow> None | c # cs \<Rightarrow> Some (c # cs))"

definition re_star :: "(char \<Rightarrow> bool) \<Rightarrow> regex_search" where
  "re_star P s = Some (takeWhile P s)"

definition is_letter :: "char \<Rightarrow> bool" where
  "is_letter c = (c \<in> set ''abcdefghijklmnopqrstuvwxyz'')"

definition kw_lexer :: Lexer where
  "kw_lexer = (Lexer_init None None)\<lparr>patterns :=
     [\<lparr>pat_id = ''KEYWORD'', regex = re_literal ''if'', action = None\<rparr>,
      \<lparr>pat_id = ''ID'', regex = re_plus is_letter, action = None\<rparr>]\<rparr>"

definition blank_lexer :: Lexer where
  "blank_lexer = (Lexer_init None None)\<lparr>patterns :=
     [\<lparr>pat_id = ''LETTERS'', regex = re_plus is_letter, action = None\<rparr>,
      \<lparr>pat_id = ''BLANKS'', regex = re_star (\<lambda>c. c = CHR '' ''),
       action = Some (\<lambda>m. ''blank'')\<rparr>]\<rparr>"

definition ex_compile :: "string \<Rightarrow> error + regex_search" where
  "ex_compile src =
     (if src = ''^(if)'' then Inr (re_literal ''if'')
      else if src = ''^([a-z]+)'' then Inr (re_plus is_letter)
      else Inl CompileError)"

definition ab_lexer :: Lexer where
  "ab_lexer = (Lexer_init None None)\<lparr>patterns :=
     [\<lparr>pat_id = ''A'', regex = re_literal ''a'', action = None\<rparr>,
      \<lparr>pat_id = ''B'', regex = re_literal ''b'', action = None\<rparr>]\<rparr>"

definition ab_ss :: "nat \<Rightarrow> StringStream" where
  "ab_ss n = \<lparr>stream = \<lparr>buf = ''ab'', pos = n\<rparr>, ss_size = 2, lineStarts = [0]\<rparr>"

definition ab_ts :: "nat \<Rightarrow> nat \<Rightarrow> Token list \<Rightarrow> TokenStream" where
  "ab_ts n off toks = \<lparr>lexer = ab_lexer, ts_stream = ab_ss n, ts_offset = off,
                 tokens = toks, ignores = []\<rparr>"

definition tokA :: Token where
  "tokA = \<lparr>patternID = ''A'', position = \<lparr>line = 1, column = 1\<rparr>, tok_value = ''a''\<rparr>"

definition tokB :: Token where
  "tokB = \<lparr>patternID = ''B'', position = \<lparr>line = 1, column = 2\<rparr>, tok_value = ''b''\<rparr>"

definition tokE :: Token where
  "tokE = \<lparr>patternID = EOS_PATTERN_ID, position = \<lparr>line = 1, column = 3\<rparr>, tok_value = []\<rparr>"

definition seq_AA :: Parser where
  "seq_AA = Sequence ''pair'' [Terminal ''first'' ''A'' None None [],
                               Terminal ''second'' ''A'' None None []] None []"

definition term_a :: Parser where
  "term_a = Terminal ''a'' ''A'' None None []"

definition aba_ss :: "nat \<Rightarrow> StringStream" where
  "aba_ss n = \<lparr>stream = \<lparr>buf = ''aba'', pos = n\<rparr>, ss_size = 3, lineStarts = [0]\<rparr>"

definition aba_ts :: "nat \<Rightarrow> nat \<Rightarrow> Token list \<Rightarrow> TokenStream" where
  "aba_ts n off toks = \<lparr>lexer = ab_lexer, ts_stream = aba_ss n, ts_offset = off,
                 tokens = toks, ignores = []\<rparr>"

definition tokA3 :: Token where
  "tokA3 = \<lparr>patternID = ''A'', position = \<lparr>line = 1, column = 3\<rparr>, tok_value = ''a''\<rparr>"

definition tokE4 :: Token where
  "tokE4 = \<lparr>patternID = EOS_PATTERN_ID, position = \<lparr>line = 1, column = 4\<rparr>, tok_value = []\<rparr>"

definition term_b :: Parser where
  "term_b = Terminal ''b'' ''B'' None None []"

chapter \<open>Properties\<close>

subsection \<open>The offset invariant and the position round trip\<close>

lemma line_starts_loop_hd:
  "acc \<noteq> [] \<Longrightarrow> line_starts_loop acc ls \<noteq> [] \<and> hd (line_starts_loop acc ls) = hd acc"
  by (induction ls arbitrary: acc) auto

lemma lineStarts_init:
  "lineStarts (StringStream_init t) \<noteq> [] \<and> hd (lineStarts (StringStream_init t)) = 0"
  using line_starts_loop_hd [of "[0]"]
  by (simp add: StringStream_init_def sio_readlines_def Let_def)

lemma GetPosition_loop_takeWhile:
  "GetPosition_loop xs off ln c =
     (ln + int (length (takeWhile (\<lambda>l. l \<le> off) xs)),
      if takeWhile (\<lambda>l. l \<le> off) xs = [] then c else last (takeWhile (\<lambda>l. l \<le> off) xs))"
  by (induction xs arbitrary: ln c) auto

lemma ss_inv_init: "ss_inv (StringStream_init t)"
  by (simp add: ss_inv_def ss_wf_def StringStream_init_def sio_readlines_def Let_def
      ss_GetOffset_def sio_tell_def)

lemma ss_SetOffset_Inr:
  "ss_SetOffset s off = Inr (s\<lparr>stream := (stream s)\<lparr>pos := nat (max 0 (min off (ss_size s)))\<rparr>\<rparr>)"
  by (simp add: ss_SetOffset_def sio_seek_def)

lemma ss_inv_SetOffset:
  assumes "ss_inv s" and "ss_SetOffset s off = Inr s'"
  shows "ss_inv s'"
  using assms
  by (auto simp: ss_SetOffset_Inr ss_inv_def ss_wf_def ss_GetOffset_def sio_tell_def)

lemma ss_inv_read:
  assumes "ss_inv s"
  shows "ss_inv (s\<lparr>stream := snd (sio_read (stream s) n)\<rparr>)"
  using assms
  by (auto simp: ss_inv_def ss_wf_def ss_GetOffset_def sio_tell_def sio_read_def Let_def)

lemma ss_inv_SetPosition:
  assumes "ss_inv s" and "SetPosition s p = Inr s'"
  shows "ss_inv s'"
  using assms
  by (auto simp: SetPosition_def Let_def split: if_splits sum.splits
      intro: ss_inv_SetOffset)

lemma SetPosition_of_GetPosition:
  assumes inv: "ss_inv s"
    and ls0: "lineStarts s0 = lineStarts s"
    and sz0: "ss_size s0 = ss_size s"
  shows "SetPosition s0 (ss_GetPosition s) = ss_SetOffset s0 (ss_GetOffset s)"
proof -
  define xs where "xs = lineStarts s"
  define off where "off = ss_GetOffset s"
  define tw where "tw = takeWhile (\<lambda>l. l \<le> off) xs"
  define k where "k = length tw"
  from inv have ls: "xs = lineStarts (StringStream_init (buf (stream s)))"
    and off0: "0 \<le> off" and offn: "off \<le> ss_size s"
    by (simp_all add: ss_inv_def ss_wf_def xs_def off_def)
  from ls lineStarts_init have ne: "xs \<noteq> []" and hd0: "hd xs = 0" by simp_all
  then obtain x rest where xs: "xs = x # rest" and x0: "x = 0" by (cases xs) auto
  have k1: "1 \<le> k" using off0 by (simp add: k_def tw_def xs x0)
  have kle: "k \<le> length xs" by (simp add: k_def tw_def length_takeWhile_le)
  have twne: "tw \<noteq> []" using k1 by (auto simp: k_def)
  have lastk: "last tw = xs ! (k - 1)"
    using twne k1 by (simp add: last_conv_nth k_def tw_def takeWhile_nth)
  have closest_le: "xs ! (k - 1) \<le> off"
  proof -
    have "last tw \<in> set tw" using twne by simp
    then show ?thesis using lastk by (auto simp: tw_def dest: set_takeWhileD)
  qed
  have gp: "ss_GetPosition s = \<lparr>line = int k, column = off - xs ! (k - 1) + 1\<rparr>"
    using twne lastk
    by (simp add: ss_GetPosition_def Let_def GetPosition_loop_takeWhile
        off_def [symmetric] xs_def [symmetric] tw_def [symmetric] k_def [symmetric])
  have idx1: "py_index xs (int k - 1) = Inr (xs ! (k - 1))"
    using k1 kle by (auto simp: py_index_def nat_diff_distrib')
  have next_gt: "k < length xs \<Longrightarrow> off < xs ! k"
    using nth_length_takeWhile [of "\<lambda>l. l \<le> off" xs] by (simp add: k_def tw_def)
  have idx2: "k < length xs \<Longrightarrow> py_index xs (int k) = Inr (xs ! k)"
    by (simp add: py_index_def)
  have xs0: "lineStarts s0 = xs" by (simp add: ls0 xs_def)
  show ?thesis
  proof (cases "k = length xs")
    case True
    then show ?thesis
      using k1 closest_le offn idx1 ne
      by (simp add: SetPosition_def gp xs0 sz0 Let_def off_def [symmetric])
  next
    case False
    with kle have lt: "k < length xs" by simp
    then show ?thesis
      using k1 closest_le next_gt [OF lt] idx1 idx2 [OF lt] ne
      by (simp add: SetPosition_def gp xs0 sz0 Let_def off_def [symmetric])
  qed
qed

lemma SetPosition_from_any_offset:
  assumes inv: "ss_inv s" and wf0: "ss_wf s0" and same: "buf (stream s0) = buf (stream s)"
  shows "SetPosition s0 (ss_GetPosition s)
         = Inr (s0\<lparr>stream := (stream s0)\<lparr>pos := nat (ss_GetOffset s)\<rparr>\<rparr>)"
proof -
  from inv have wf: "ss_wf s" and o0: "0 \<le> ss_GetOffset s"
    and on: "ss_GetOffset s \<le> int (length (buf (stream s)))"
    by (simp_all add: ss_inv_def)
  from wf wf0 same have ls0: "lineStarts s0 = lineStarts s" and sz0: "ss_size s0 = ss_size s"
    by (simp_all add: ss_wf_def)
  from wf have sz: "ss_size s = int (length (buf (stream s)))" by (simp add: ss_wf_def)
  have "SetPosition s0 (ss_GetPosition s) = ss_SetOffset s0 (ss_GetOffset s)"
    using inv ls0 sz0 by (rule SetPosition_of_GetPosition)
  also have "\<dots> = Inr (s0\<lparr>stream := (stream s0)\<lparr>pos := nat (ss_GetOffset s)\<rparr>\<rparr>)"
    using o0 on by (simp add: ss_SetOffset_Inr sz0 sz)
  finally show ?thesis .
qed

text \<open>
  Claim C9. \<^verbatim>\<open>StringStream.SetOffset\<close> returns for every integer argument, and the offset
  it leaves is the argument clamped into \<open>[0, size]\<close>. A stream built by the constructor
  satisfies \<open>0 \<le> offset \<le> length text\<close>, and every operation that moves the cursor
  (\<^verbatim>\<open>SetOffset\<close>, \<^verbatim>\<open>Get\<close>, \<^verbatim>\<open>Ignore\<close>, a \<^verbatim>\<open>SetPosition\<close> that does not raise) keeps it;
  \<^verbatim>\<open>IsEOS\<close> holds exactly when the offset is the length of the text.
\<close>

theorem StringStream_offset_invariant:
  "(\<exists>s'. ss_SetOffset s off = Inr s' \<and> ss_GetOffset s' = max 0 (min off (ss_size s)))
   \<and> ss_inv (StringStream_init text)
   \<and> (ss_inv s \<longrightarrow>
        0 \<le> ss_GetOffset s \<and> ss_GetOffset s \<le> int (length (buf (stream s)))
        \<and> (\<forall>s'. ss_SetOffset s off = Inr s' \<longrightarrow> ss_inv s'
              \<and> ss_GetOffset s' = max 0 (min off (int (length (buf (stream s))))))
        \<and> ss_inv (snd (ss_Get s))
        \<and> ss_inv (Ignore s amt)
        \<and> (\<forall>s'. SetPosition s p = Inr s' \<longrightarrow> ss_inv s')
        \<and> (ss_IsEOS s \<longleftrightarrow> ss_GetOffset s = int (length (buf (stream s)))))"
proof (intro conjI impI allI)
  show "\<exists>s'. ss_SetOffset s off = Inr s' \<and> ss_GetOffset s' = max 0 (min off (ss_size s))"
    by (simp add: ss_SetOffset_Inr ss_GetOffset_def sio_tell_def)
  show "ss_inv (StringStream_init text)" by (rule ss_inv_init)
next
  assume inv: "ss_inv s"
  then show "0 \<le> ss_GetOffset s" and "ss_GetOffset s \<le> int (length (buf (stream s)))"
    by (simp_all add: ss_inv_def)
  show "ss_inv (snd (ss_Get s))"
    using ss_inv_read [OF inv, of 1] by (simp add: ss_Get_def split_beta)
  show "ss_inv (Ignore s amt)"
    using ss_inv_read [OF inv, of amt] by (simp add: Ignore_def)
  show "ss_IsEOS s \<longleftrightarrow> ss_GetOffset s = int (length (buf (stream s)))"
    using inv by (simp add: ss_IsEOS_def ss_inv_def ss_wf_def)
next
  fix s' assume "ss_inv s" and "ss_SetOffset s off = Inr s'"
  then show "ss_inv s'" by (rule ss_inv_SetOffset)
next
  fix s' assume inv: "ss_inv s" and so: "ss_SetOffset s off = Inr s'"
  then show "ss_GetOffset s' = max 0 (min off (int (length (buf (stream s)))))"
    by (auto simp: ss_SetOffset_Inr ss_GetOffset_def sio_tell_def ss_inv_def ss_wf_def)
next
  fix s' assume "ss_inv s" and "SetPosition s p = Inr s'"
  then show "ss_inv s'" by (rule ss_inv_SetPosition)
qed

theorem StringStream_offset_invariant_witness:
  "ss_inv (StringStream_init ''ab'')
   \<and> (\<exists>s'. ss_SetOffset (StringStream_init ''ab'') 7 = Inr s' \<and> ss_GetOffset s' = 2 \<and> ss_inv s'
          \<and> ss_IsEOS s')
   \<and> (\<exists>s'. ss_SetOffset (StringStream_init ''ab'') (- 3) = Inr s' \<and> ss_GetOffset s' = 0
          \<and> \<not> ss_IsEOS s')
   \<and> ss_inv (Ignore (StringStream_init ''ab'') 5)
   \<and> ss_GetOffset (Ignore (StringStream_init ''ab'') 5) = 2"
proof -
  have i: "ss_inv (StringStream_init ''ab'')" by (rule ss_inv_init)
  have sz: "ss_size (StringStream_init ''ab'') = 2"
    by (simp add: StringStream_init_def sio_readlines_def Let_def)
  have a: "ss_inv (Ignore (StringStream_init ''ab'') 5)"
    using StringStream_offset_invariant [of "StringStream_init ''ab''" 7 "''ab''" 5] i by blast
  have b: "ss_GetOffset (Ignore (StringStream_init ''ab'') 5) = 2"
    by (simp add: Ignore_def sio_read_def StringStream_init_def sio_readlines_def Let_def
        ss_GetOffset_def sio_tell_def)
  have c: "\<exists>s'. ss_SetOffset (StringStream_init ''ab'') 7 = Inr s' \<and> ss_GetOffset s' = 2
      \<and> ss_inv s' \<and> ss_IsEOS s'"
    using StringStream_offset_invariant [of "StringStream_init ''ab''" 7 "''ab''"] i sz
    by (auto simp: ss_SetOffset_Inr ss_IsEOS_def)
  have d: "\<exists>s'. ss_SetOffset (StringStream_init ''ab'') (- 3) = Inr s' \<and> ss_GetOffset s' = 0
      \<and> \<not> ss_IsEOS s'"
    by (simp add: ss_SetOffset_Inr ss_IsEOS_def ss_GetOffset_def sio_tell_def sz)
  from i a b c d show ?thesis by blast
qed

text \<open>
  Claim C4. For any text and any offset between 0 and the length of the text, take the
  position \<^verbatim>\<open>GetPosition\<close> gives for a stream over the text at that offset. Then
  \<^verbatim>\<open>SetPosition\<close> of that position does not raise and puts the offset on that offset: on
  the stream itself, and on every stream over the same text wherever its cursor stands, so
  the position alone gives the offset back. Two offsets of the text with the same position
  are equal.
\<close>

theorem position_offset_roundtrip:
  assumes "0 \<le> off" and "off \<le> int (length text)"
  shows "\<exists>s. ss_SetOffset (StringStream_init text) off = Inr s \<and> ss_GetOffset s = off
           \<and> (\<exists>s'. SetPosition s (ss_GetPosition s) = Inr s' \<and> ss_GetOffset s' = off)
           \<and> (\<forall>s0. ss_wf s0 \<and> buf (stream s0) = text \<longrightarrow>
                 (\<exists>s'. SetPosition s0 (ss_GetPosition s) = Inr s' \<and> ss_GetOffset s' = off
                       \<and> ss_inv s' \<and> buf (stream s') = text))
           \<and> (\<forall>off0 s0. ss_SetOffset (StringStream_init text) off0 = Inr s0 \<longrightarrow>
                 (\<exists>s'. SetPosition s0 (ss_GetPosition s) = Inr s' \<and> ss_GetOffset s' = off))
           \<and> (\<forall>t. ss_inv t \<and> buf (stream t) = text \<and> ss_GetPosition t = ss_GetPosition s
                 \<longrightarrow> ss_GetOffset t = off)"
proof -
  let ?i = "StringStream_init text"
  have sz: "ss_size ?i = int (length text)" and bi: "buf (stream ?i) = text"
    by (simp_all add: StringStream_init_def sio_readlines_def Let_def)
  obtain s where s: "ss_SetOffset ?i off = Inr s"
    by (simp add: ss_SetOffset_Inr)
  have off_s: "ss_GetOffset s = off"
    using s assms sz by (auto simp: ss_SetOffset_Inr ss_GetOffset_def sio_tell_def)
  have bs: "buf (stream s) = text"
    using s bi by (auto simp: ss_SetOffset_Inr)
  have inv: "ss_inv s" using ss_inv_init s by (rule ss_inv_SetOffset)
  have gen: "SetPosition s0 (ss_GetPosition s)
             = Inr (s0\<lparr>stream := (stream s0)\<lparr>pos := nat off\<rparr>\<rparr>)"
    if "ss_wf s0" and "buf (stream s0) = text" for s0
    using SetPosition_from_any_offset [OF inv that(1)] that(2) bs off_s by simp
  have res: "ss_GetOffset (s0\<lparr>stream := (stream s0)\<lparr>pos := nat off\<rparr>\<rparr>) = off
             \<and> ss_inv (s0\<lparr>stream := (stream s0)\<lparr>pos := nat off\<rparr>\<rparr>)
             \<and> buf (stream (s0\<lparr>stream := (stream s0)\<lparr>pos := nat off\<rparr>\<rparr>)) = text"
    if "ss_wf s0" and "buf (stream s0) = text" for s0
    using that assms by (simp add: ss_GetOffset_def sio_tell_def ss_inv_def ss_wf_def)
  have a: "\<exists>s'. SetPosition s (ss_GetPosition s) = Inr s' \<and> ss_GetOffset s' = off"
    using gen [of s] res [of s] inv bs by (simp add: ss_inv_def)
  have b: "\<forall>s0. ss_wf s0 \<and> buf (stream s0) = text \<longrightarrow>
                 (\<exists>s'. SetPosition s0 (ss_GetPosition s) = Inr s' \<and> ss_GetOffset s' = off
                       \<and> ss_inv s' \<and> buf (stream s') = text)"
    using gen res by simp
  have c: "\<forall>off0 s0. ss_SetOffset ?i off0 = Inr s0 \<longrightarrow>
                 (\<exists>s'. SetPosition s0 (ss_GetPosition s) = Inr s' \<and> ss_GetOffset s' = off)"
  proof (intro allI impI)
    fix off0 s0 assume so: "ss_SetOffset ?i off0 = Inr s0"
    have "ss_inv s0" using ss_inv_init so by (rule ss_inv_SetOffset)
    then have w: "ss_wf s0" by (simp add: ss_inv_def)
    have b0: "buf (stream s0) = text" using so bi by (auto simp: ss_SetOffset_Inr)
    show "\<exists>s'. SetPosition s0 (ss_GetPosition s) = Inr s' \<and> ss_GetOffset s' = off"
      using gen [OF w b0] res [OF w b0] by simp
  qed
  have d: "\<forall>t. ss_inv t \<and> buf (stream t) = text \<and> ss_GetPosition t = ss_GetPosition s
                 \<longrightarrow> ss_GetOffset t = off"
  proof (intro allI impI)
    fix t assume t: "ss_inv t \<and> buf (stream t) = text \<and> ss_GetPosition t = ss_GetPosition s"
    then have it: "ss_inv t" and bt: "buf (stream t) = text"
      and eq: "ss_GetPosition t = ss_GetPosition s" by simp_all
    from it have wt: "ss_wf t" and t0: "0 \<le> ss_GetOffset t" by (simp_all add: ss_inv_def)
    have "SetPosition t (ss_GetPosition t)
          = Inr (t\<lparr>stream := (stream t)\<lparr>pos := nat (ss_GetOffset t)\<rparr>\<rparr>)"
      using SetPosition_from_any_offset [OF it wt] by simp
    moreover have "SetPosition t (ss_GetPosition t)
          = Inr (t\<lparr>stream := (stream t)\<lparr>pos := nat off\<rparr>\<rparr>)"
      using gen [OF wt bt] eq by simp
    ultimately have "ss_GetOffset (t\<lparr>stream := (stream t)\<lparr>pos := nat (ss_GetOffset t)\<rparr>\<rparr>)
        = ss_GetOffset (t\<lparr>stream := (stream t)\<lparr>pos := nat off\<rparr>\<rparr>)" by simp
    then show "ss_GetOffset t = off"
      using t0 assms by (simp add: ss_GetOffset_def sio_tell_def)
  qed
  from s off_s a b c d show ?thesis by blast
qed

theorem position_offset_roundtrip_witness:
  "(0::int) \<le> 4 \<and> (4::int) \<le> int (length (''ab'' @ [newline] @ ''cd''))
   \<and> (\<exists>s s' s''. ss_SetOffset (StringStream_init (''ab'' @ [newline] @ ''cd'')) 4 = Inr s
         \<and> ss_GetOffset s = 4
         \<and> ss_GetPosition s = \<lparr>line = 2, column = 2\<rparr>
         \<and> SetPosition s \<lparr>line = 2, column = 2\<rparr> = Inr s' \<and> ss_GetOffset s' = 4
         \<and> ss_GetOffset (StringStream_init (''ab'' @ [newline] @ ''cd'')) = 0
         \<and> SetPosition (StringStream_init (''ab'' @ [newline] @ ''cd'')) \<lparr>line = 2, column = 2\<rparr>
             = Inr s''
         \<and> ss_GetOffset s'' = 4)"
proof -
  let ?t = "''ab'' @ [newline] @ ''cd''"
  have h1: "(0::int) \<le> 4" and h2: "(4::int) \<le> int (length ?t)" by simp_all
  from position_offset_roundtrip [OF h1 h2] obtain s s' where
    s: "ss_SetOffset (StringStream_init ?t) 4 = Inr s" and o: "ss_GetOffset s = 4"
    and r: "SetPosition s (ss_GetPosition s) = Inr s'" and o': "ss_GetOffset s' = 4"
    and g: "\<forall>s0. ss_wf s0 \<and> buf (stream s0) = ?t \<longrightarrow>
                 (\<exists>s'. SetPosition s0 (ss_GetPosition s) = Inr s' \<and> ss_GetOffset s' = 4
                       \<and> ss_inv s' \<and> buf (stream s') = ?t)"
    by blast
  have p: "ss_GetPosition s = \<lparr>line = 2, column = 2\<rparr>"
    using s
    by (auto simp: ss_SetOffset_Inr ss_GetPosition_def ss_GetOffset_def sio_tell_def
        StringStream_init_def sio_readlines_def Let_def newline_def)
  have w: "ss_wf (StringStream_init ?t)" using ss_inv_init [of ?t] by (simp add: ss_inv_def)
  have b: "buf (stream (StringStream_init ?t)) = ?t"
    by (simp add: StringStream_init_def sio_readlines_def Let_def)
  have z: "ss_GetOffset (StringStream_init ?t) = 0"
    by (simp add: StringStream_init_def sio_readlines_def Let_def ss_GetOffset_def sio_tell_def)
  from g w b obtain s'' where
    "SetPosition (StringStream_init ?t) (ss_GetPosition s) = Inr s''" "ss_GetOffset s'' = 4"
    by blast
  with p s o r o' h1 h2 z show ?thesis by auto
qed

text \<open>
  Claim C5. The spec lets \<^verbatim>\<open>SetPosition\<close> raise for every non-positive line or column.
  The guard of the code compares with zero only. A negative column passes it and the
  offset is clamped; a negative line passes it too and is then used as a Python index
  from the end of the line starts, so it either denotes another line or raises
  \<^verbatim>\<open>IndexError\<close> instead of the invalid-position exception.
\<close>

theorem SetPosition_negative_not_rejected:
  "SetPosition (StringStream_init ''ab'') \<lparr>line = 1, column = - 1\<rparr>
     = Inr (StringStream_init ''ab'')
   \<and> SetPosition (StringStream_init (''ab'' @ [newline] @ ''cd'')) \<lparr>line = - 1, column = 2\<rparr>
     = ss_SetOffset (StringStream_init (''ab'' @ [newline] @ ''cd'')) 1
   \<and> SetPosition (StringStream_init ''ab'') \<lparr>line = - 1, column = 1\<rparr> = Inl IndexError
   \<and> SetPosition (StringStream_init ''ab'') \<lparr>line = 0, column = 1\<rparr>
     = Inl (InvalidPosition \<lparr>line = 0, column = 1\<rparr>)"
  by (simp add: SetPosition_def py_index_def ss_SetOffset_Inr StringStream_init_def
      sio_readlines_def Let_def newline_def)

subsection \<open>The loop over the patterns\<close>

lemma Lex_loop_no_longer:
  "\<forall>q \<in> set ps. \<forall>m'. regex q str = Some m' \<longrightarrow> length m' \<le> g
   \<Longrightarrow> Lex_loop ps str (Some p, mv, g) = (Some p, mv, g)"
  by (induction ps) (auto split: option.splits)

lemma Lex_loop_winner:
  assumes "i < length ps"
    and "regex (ps ! i) str = Some m"
    and "\<forall>j<length ps. \<forall>m'. regex (ps ! j) str = Some m' \<longrightarrow> length m' \<le> length m"
    and "\<forall>j<i. \<forall>m'. regex (ps ! j) str = Some m' \<longrightarrow> length m' < length m"
    and "Option.is_none mp \<or> g < length m"
  shows "Lex_loop ps str (mp, mv, g) = (Some (ps ! i), m, length m)"
  using assms
proof (induction ps arbitrary: i mp mv g)
  case Nil
  then show ?case by simp
next
  case (Cons p ps)
  show ?case
  proof (cases i)
    case 0
    have "\<forall>q \<in> set ps. \<forall>m'. regex q str = Some m' \<longrightarrow> length m' \<le> length m"
    proof (intro ballI allI impI)
      fix q m' assume "q \<in> set ps" and r: "regex q str = Some m'"
      then obtain j where "j < length ps" and "ps ! j = q" by (auto simp: in_set_conv_nth)
      with Cons.prems(3) r show "length m' \<le> length m" by (auto dest: spec [of _ "Suc j"])
    qed
    then have "Lex_loop ps str (Some p, m, length m) = (Some p, m, length m)"
      by (rule Lex_loop_no_longer)
    with 0 Cons.prems(2,5) show ?thesis by auto
  next
    case (Suc i')
    have a: "i' < length ps" and b: "regex (ps ! i') str = Some m"
      using Cons.prems(1,2) Suc by simp_all
    have c: "\<forall>j<length ps. \<forall>m'. regex (ps ! j) str = Some m' \<longrightarrow> length m' \<le> length m"
      using Cons.prems(3) by (auto dest: spec [of _ "Suc j" for j])
    have d: "\<forall>j<i'. \<forall>m'. regex (ps ! j) str = Some m' \<longrightarrow> length m' < length m"
      using Cons.prems(4) Suc by (auto dest: spec [of _ "Suc j" for j])
    have e: "\<And>m0. regex p str = Some m0 \<Longrightarrow> length m0 < length m"
      using Cons.prems(4) Suc by (auto dest: spec [of _ 0])
    show ?thesis
    proof (cases "regex p str")
      case None
      then show ?thesis using Cons.IH [OF a b c d Cons.prems(5)] Suc by simp
    next
      case (Some m0)
      show ?thesis
      proof (cases "Option.is_none mp \<or> length m0 > g")
        case True
        have "Option.is_none (Some p) \<or> length m0 < length m" using e [OF Some] by simp
        from Cons.IH [OF a b c d this] Some True Suc show ?thesis by simp
      next
        case False
        with Cons.IH [OF a b c d Cons.prems(5)] Some Suc show ?thesis by simp
      qed
    qed
  qed
qed

lemma Lex_loop_none:
  "Option.is_none (fst (Lex_loop ps str (mp, mv, g)))
     \<longleftrightarrow> Option.is_none mp \<and> (\<forall>q \<in> set ps. regex q str = None)"
  by (induction ps arbitrary: mp mv g) (auto split: option.splits)

lemma Lex_loop_none_acc:
  "\<forall>q \<in> set ps. regex q str = None \<Longrightarrow> Lex_loop ps str (mp, mv, g) = (mp, mv, g)"
  by (induction ps) (auto split: option.splits)

lemma winner_exists:
  assumes "\<exists>j<length ps. regex (ps ! j) str \<noteq> None"
  shows "\<exists>i m. i < length ps \<and> regex (ps ! i) str = Some m
      \<and> (\<forall>j<length ps. \<forall>m'. regex (ps ! j) str = Some m' \<longrightarrow> length m' \<le> length m)
      \<and> (\<forall>j<i. \<forall>m'. regex (ps ! j) str = Some m' \<longrightarrow> length m' < length m)"
proof -
  define J where "J = {j. j < length ps \<and> regex (ps ! j) str \<noteq> None}"
  define len where "len = (\<lambda>j. length (the (regex (ps ! j) str)))"
  have fin: "finite (len ` J)" by (simp add: J_def)
  have ne: "len ` J \<noteq> {}" using assms by (auto simp: J_def)
  define M where "M = Max (len ` J)"
  have "M \<in> len ` J" unfolding M_def using fin ne by (rule Max_in)
  then have ex: "\<exists>j. j \<in> J \<and> len j = M" by auto
  define i where "i = (LEAST j. j \<in> J \<and> len j = M)"
  have iJ: "i \<in> J" and iM: "len i = M"
    using LeastI_ex [OF ex] by (simp_all add: i_def)
  from iJ obtain m where im: "regex (ps ! i) str = Some m" and il: "i < length ps"
    by (auto simp: J_def)
  have lm: "length m = M" using iM im by (simp add: len_def)
  have le: "length m' \<le> length m" if "j < length ps" "regex (ps ! j) str = Some m'" for j m'
  proof -
    have "j \<in> J" using that by (simp add: J_def)
    then have "len j \<le> M" unfolding M_def using fin by (intro Max_ge) auto
    then show ?thesis using that lm by (simp add: len_def)
  qed
  have lt: "length m' < length m" if "j < i" "regex (ps ! j) str = Some m'" for j m'
  proof -
    have jl: "j < length ps" using that il by simp
    have "\<not> (j \<in> J \<and> len j = M)" using that(1) not_less_Least unfolding i_def by blast
    moreover have "j \<in> J" using that jl by (simp add: J_def)
    ultimately have "len j \<noteq> M" by simp
    with le [OF jl that(2)] that(2) lm show ?thesis by (simp add: len_def)
  qed
  from il im le lt show ?thesis by blast
qed

lemma Lex_winner:
  assumes "\<not> ss_IsEOS s"
    and "i < length (patterns lx)"
    and "regex (patterns lx ! i) (PeekRemainder s) = Some m"
    and "\<forall>j<length (patterns lx). \<forall>m'. regex (patterns lx ! j) (PeekRemainder s) = Some m'
           \<longrightarrow> length m' \<le> length m"
    and "\<forall>j<i. \<forall>m'. regex (patterns lx ! j) (PeekRemainder s) = Some m'
           \<longrightarrow> length m' < length m"
  shows "Lex lx s = (\<lparr>patternID = pat_id (patterns lx ! i), position = ss_GetPosition s,
            tok_value = (case action (patterns lx ! i) of None \<Rightarrow> m | Some f \<Rightarrow> f m)\<rparr>,
          Ignore s (int (length m)))"
proof -
  have "Lex_loop (patterns lx) (PeekRemainder s) (None, [], 0)
      = (Some (patterns lx ! i), m, length m)"
    using assms(2-5) by (intro Lex_loop_winner) simp_all
  with assms(1) show ?thesis by (simp add: Lex_def Let_def)
qed

lemma Lex_unknown:
  assumes "\<not> ss_IsEOS s" and "\<forall>q \<in> set (patterns lx). regex q (PeekRemainder s) = None"
  shows "Lex lx s = (\<lparr>patternID = pat_id (patternUnknown lx), position = ss_GetPosition s,
            tok_value = (case action (patternUnknown lx) of None \<Rightarrow> ss_Peek s
                         | Some f \<Rightarrow> f (ss_Peek s))\<rparr>,
          Ignore s (int (length (ss_Peek s))))"
  using assms by (simp add: Lex_def Let_def Lex_loop_none_acc)

lemma Ignore_0: "Ignore s 0 = s"
  by (simp add: Ignore_def sio_read_def)

lemma ss_Peek_length:
  assumes "ss_inv s" and "\<not> ss_IsEOS s"
  shows "length (ss_Peek s) = 1"
  using assms
  by (auto simp: ss_Peek_def sio_read_def ss_inv_def ss_wf_def ss_IsEOS_def ss_GetOffset_def
      sio_tell_def Let_def)

subsection \<open>Longest match\<close>

text \<open>
  Claim C2. Away from the end of the stream, when some registered pattern matches the
  remainder, \<^verbatim>\<open>Lex\<close> returns the token of a pattern whose match is at least as long as
  every other pattern's match and strictly longer than the match of every pattern
  registered before it: the longest match, and among the longest the first registered.
  The stream advances by the length of that match.
\<close>

theorem Lex_longest_match:
  assumes "\<not> ss_IsEOS s"
    and "\<exists>j<length (patterns lx). regex (patterns lx ! j) (PeekRemainder s) \<noteq> None"
  shows "\<exists>i m. i < length (patterns lx) \<and> regex (patterns lx ! i) (PeekRemainder s) = Some m
      \<and> (\<forall>j<length (patterns lx). \<forall>m'. regex (patterns lx ! j) (PeekRemainder s) = Some m'
            \<longrightarrow> length m' \<le> length m)
      \<and> (\<forall>j<i. \<forall>m'. regex (patterns lx ! j) (PeekRemainder s) = Some m'
            \<longrightarrow> length m' < length m)
      \<and> Lex lx s = (\<lparr>patternID = pat_id (patterns lx ! i), position = ss_GetPosition s,
            tok_value = (case action (patterns lx ! i) of None \<Rightarrow> m | Some f \<Rightarrow> f m)\<rparr>,
          Ignore s (int (length m)))"
proof -
  from winner_exists [OF assms(2)] obtain i m where
    w: "i < length (patterns lx)" "regex (patterns lx ! i) (PeekRemainder s) = Some m"
    "\<forall>j<length (patterns lx). \<forall>m'. regex (patterns lx ! j) (PeekRemainder s) = Some m'
            \<longrightarrow> length m' \<le> length m"
    "\<forall>j<i. \<forall>m'. regex (patterns lx ! j) (PeekRemainder s) = Some m'
            \<longrightarrow> length m' < length m"
    by blast
  from Lex_winner [OF assms(1) w] w show ?thesis by blast
qed

lemma kw_remainder_if: "PeekRemainder (StringStream_init ''if('') = ''if(''"
  by (simp add: PeekRemainder_def sio_read_def StringStream_init_def sio_readlines_def Let_def)

lemma kw_remainder_iffy: "PeekRemainder (StringStream_init ''iffy('') = ''iffy(''"
  by (simp add: PeekRemainder_def sio_read_def StringStream_init_def sio_readlines_def Let_def)

lemma kw_not_eos:
  "\<not> ss_IsEOS (StringStream_init ''if('')" "\<not> ss_IsEOS (StringStream_init ''iffy('')"
  by (simp_all add: ss_IsEOS_def ss_GetOffset_def sio_tell_def StringStream_init_def
      sio_readlines_def Let_def)

lemma kw_patterns:
  "patterns kw_lexer = [\<lparr>pat_id = ''KEYWORD'', regex = re_literal ''if'', action = None\<rparr>,
      \<lparr>pat_id = ''ID'', regex = re_plus is_letter, action = None\<rparr>]"
  by (simp add: kw_lexer_def)

lemma kw_matches:
  "re_literal ''if'' ''if('' = Some ''if''" "re_plus is_letter ''if('' = Some ''if''"
  "re_literal ''if'' ''iffy('' = Some ''if''" "re_plus is_letter ''iffy('' = Some ''iffy''"
  by (simp_all add: re_literal_def re_plus_def is_letter_def)

theorem Lex_longest_match_witness:
  "\<not> ss_IsEOS (StringStream_init ''if('')
   \<and> patternID (fst (Lex kw_lexer (StringStream_init ''if(''))) = ''KEYWORD''
   \<and> tok_value (fst (Lex kw_lexer (StringStream_init ''if(''))) = ''if''
   \<and> \<not> ss_IsEOS (StringStream_init ''iffy('')
   \<and> patternID (fst (Lex kw_lexer (StringStream_init ''iffy(''))) = ''ID''
   \<and> tok_value (fst (Lex kw_lexer (StringStream_init ''iffy(''))) = ''iffy''"
proof -
  let ?s1 = "StringStream_init ''if(''" and ?s2 = "StringStream_init ''iffy(''"
  have e1: "\<exists>j<length (patterns kw_lexer). regex (patterns kw_lexer ! j) (PeekRemainder ?s1) \<noteq> None"
    by (rule exI [of _ 0]) (simp add: kw_patterns kw_remainder_if kw_matches)
  have e2: "\<exists>j<length (patterns kw_lexer). regex (patterns kw_lexer ! j) (PeekRemainder ?s2) \<noteq> None"
    by (rule exI [of _ 0]) (simp add: kw_patterns kw_remainder_iffy kw_matches)
  from Lex_longest_match [OF kw_not_eos(1) e1] obtain i m where
    i: "i < length (patterns kw_lexer)"
    and m: "regex (patterns kw_lexer ! i) (PeekRemainder ?s1) = Some m"
    and lt: "\<forall>j<i. \<forall>m'. regex (patterns kw_lexer ! j) (PeekRemainder ?s1) = Some m'
           \<longrightarrow> length m' < length m"
    and L: "Lex kw_lexer ?s1 = (\<lparr>patternID = pat_id (patterns kw_lexer ! i),
          position = ss_GetPosition ?s1,
          tok_value = (case action (patterns kw_lexer ! i) of None \<Rightarrow> m | Some f \<Rightarrow> f m)\<rparr>,
        Ignore ?s1 (int (length m)))"
    by blast
  have i0: "i = 0"
  proof (rule ccontr)
    assume "i \<noteq> 0"
    with i have i1: "i = 1" by (simp add: kw_patterns)
    with m have "m = ''if''" by (simp add: kw_patterns kw_matches kw_remainder_if)
    moreover from lt i1 have "\<forall>m'. regex (patterns kw_lexer ! 0) (PeekRemainder ?s1) = Some m'
           \<longrightarrow> length m' < length m" by simp
    ultimately show False by (simp add: kw_patterns kw_matches kw_remainder_if)
  qed
  with m have m1: "m = ''if''" by (simp add: kw_patterns kw_matches kw_remainder_if)
  from Lex_longest_match [OF kw_not_eos(2) e2] obtain i' m' where
    i': "i' < length (patterns kw_lexer)"
    and m': "regex (patterns kw_lexer ! i') (PeekRemainder ?s2) = Some m'"
    and le: "\<forall>j<length (patterns kw_lexer). \<forall>m''.
           regex (patterns kw_lexer ! j) (PeekRemainder ?s2) = Some m''
           \<longrightarrow> length m'' \<le> length m'"
    and L': "Lex kw_lexer ?s2 = (\<lparr>patternID = pat_id (patterns kw_lexer ! i'),
          position = ss_GetPosition ?s2,
          tok_value = (case action (patterns kw_lexer ! i') of None \<Rightarrow> m' | Some f \<Rightarrow> f m')\<rparr>,
        Ignore ?s2 (int (length m')))"
    by blast
  have i1': "i' = 1"
  proof (rule ccontr)
    assume "i' \<noteq> 1"
    with i' have z: "i' = 0" by (simp add: kw_patterns)
    with m' have "m' = ''if''" by (simp add: kw_patterns kw_matches kw_remainder_iffy)
    moreover have "(1::nat) < length (patterns kw_lexer)" by (simp add: kw_patterns)
    with le have "\<forall>m''. regex (patterns kw_lexer ! 1) (PeekRemainder ?s2) = Some m''
           \<longrightarrow> length m'' \<le> length m'" by blast
    ultimately show False by (simp add: kw_patterns kw_matches kw_remainder_iffy)
  qed
  with m' have m2: "m' = ''iffy''" by (simp add: kw_patterns kw_matches kw_remainder_iffy)
  show ?thesis
    using kw_not_eos L L' i0 i1' m1 m2 by (simp add: kw_patterns)
qed

subsection \<open>Zero-length matches and the Unknown token\<close>

lemma funpow_fixed: "f x = x \<Longrightarrow> (f ^^ n) x = x"
  by (induction n) simp_all

lemma Ignore_advance:
  assumes "ss_inv s" and "\<not> ss_IsEOS s"
  shows "ss_GetOffset (Ignore s (int (length (ss_Peek s)))) = ss_GetOffset s + 1"
  using assms
  by (auto simp: Ignore_def ss_Peek_def sio_read_def ss_inv_def ss_wf_def ss_IsEOS_def
      ss_GetOffset_def sio_tell_def Let_def)

text \<open>
  Claim C10, amended. In a stream that is not at its end: (1) if the first pattern
  that matches at all matches the empty string and no pattern matches more, \<^verbatim>\<open>Lex\<close>
  returns that pattern's token, whose value is the pattern's action applied to the empty
  match (the empty string when the pattern has no action), and leaves the stream as it
  was, so that lexing again any number of times stays there; (2) if no pattern matches,
  \<^verbatim>\<open>Lex\<close> returns the Unknown token and moves one character on; (3) if some pattern
  matches, the token is that of a registered pattern that matches, not the Unknown one.
\<close>

theorem Lex_zero_length_match:
  assumes "ss_inv s" and "\<not> ss_IsEOS s"
  shows "(i < length (patterns lx)
           \<and> regex (patterns lx ! i) (PeekRemainder s) = Some []
           \<and> (\<forall>j<i. regex (patterns lx ! j) (PeekRemainder s) = None)
           \<and> (\<forall>j<length (patterns lx). \<forall>m'.
                 regex (patterns lx ! j) (PeekRemainder s) = Some m' \<longrightarrow> m' = [])
         \<longrightarrow> Lex lx s = (\<lparr>patternID = pat_id (patterns lx ! i), position = ss_GetPosition s,
                 tok_value = (case action (patterns lx ! i) of None \<Rightarrow> [] | Some f \<Rightarrow> f [])\<rparr>, s)
             \<and> ((\<lambda>u. snd (Lex lx u)) ^^ n) s = s)
       \<and> ((\<forall>q \<in> set (patterns lx). regex q (PeekRemainder s) = None)
         \<longrightarrow> Lex lx s = (\<lparr>patternID = pat_id (patternUnknown lx), position = ss_GetPosition s,
                 tok_value = (case action (patternUnknown lx) of None \<Rightarrow> ss_Peek s
                              | Some f \<Rightarrow> f (ss_Peek s))\<rparr>,
               Ignore s (int (length (ss_Peek s))))
             \<and> length (ss_Peek s) = 1
             \<and> ss_GetOffset (Ignore s (int (length (ss_Peek s)))) = ss_GetOffset s + 1)
       \<and> ((\<exists>j<length (patterns lx). regex (patterns lx ! j) (PeekRemainder s) \<noteq> None)
         \<longrightarrow> (\<exists>k m. k < length (patterns lx)
                 \<and> regex (patterns lx ! k) (PeekRemainder s) = Some m
                 \<and> Lex lx s = (\<lparr>patternID = pat_id (patterns lx ! k), position = ss_GetPosition s,
                      tok_value = (case action (patterns lx ! k) of None \<Rightarrow> m | Some f \<Rightarrow> f m)\<rparr>,
                    Ignore s (int (length m)))))"
proof (intro conjI impI)
  assume z: "i < length (patterns lx)
           \<and> regex (patterns lx ! i) (PeekRemainder s) = Some []
           \<and> (\<forall>j<i. regex (patterns lx ! j) (PeekRemainder s) = None)
           \<and> (\<forall>j<length (patterns lx). \<forall>m'.
                 regex (patterns lx ! j) (PeekRemainder s) = Some m' \<longrightarrow> m' = [])"
  then have "Lex lx s = (\<lparr>patternID = pat_id (patterns lx ! i), position = ss_GetPosition s,
            tok_value = (case action (patterns lx ! i) of None \<Rightarrow> [] | Some f \<Rightarrow> f [])\<rparr>,
          Ignore s (int (length ([]::string))))"
    using assms(2) by (intro Lex_winner) auto
  then show L: "Lex lx s = (\<lparr>patternID = pat_id (patterns lx ! i), position = ss_GetPosition s,
                 tok_value = (case action (patterns lx ! i) of None \<Rightarrow> [] | Some f \<Rightarrow> f [])\<rparr>, s)"
    by (simp add: Ignore_0)
  show "((\<lambda>u. snd (Lex lx u)) ^^ n) s = s"
    by (rule funpow_fixed) (simp add: L)
next
  assume u: "\<forall>q \<in> set (patterns lx). regex q (PeekRemainder s) = None"
  from Lex_unknown [OF assms(2) u]
  show "Lex lx s = (\<lparr>patternID = pat_id (patternUnknown lx), position = ss_GetPosition s,
                 tok_value = (case action (patternUnknown lx) of None \<Rightarrow> ss_Peek s
                              | Some f \<Rightarrow> f (ss_Peek s))\<rparr>,
               Ignore s (int (length (ss_Peek s))))" .
  show "length (ss_Peek s) = 1" using assms by (rule ss_Peek_length)
  show "ss_GetOffset (Ignore s (int (length (ss_Peek s)))) = ss_GetOffset s + 1"
    using assms by (rule Ignore_advance)
next
  assume "\<exists>j<length (patterns lx). regex (patterns lx ! j) (PeekRemainder s) \<noteq> None"
  from winner_exists [OF this] obtain k m where
    w: "k < length (patterns lx)" "regex (patterns lx ! k) (PeekRemainder s) = Some m"
    "\<forall>j<length (patterns lx). \<forall>m'. regex (patterns lx ! j) (PeekRemainder s) = Some m'
            \<longrightarrow> length m' \<le> length m"
    "\<forall>j<k. \<forall>m'. regex (patterns lx ! j) (PeekRemainder s) = Some m'
            \<longrightarrow> length m' < length m"
    by blast
  from Lex_winner [OF assms(2) w] w(1,2)
  show "\<exists>k m. k < length (patterns lx)
                 \<and> regex (patterns lx ! k) (PeekRemainder s) = Some m
                 \<and> Lex lx s = (\<lparr>patternID = pat_id (patterns lx ! k), position = ss_GetPosition s,
                      tok_value = (case action (patterns lx ! k) of None \<Rightarrow> m | Some f \<Rightarrow> f m)\<rparr>,
                    Ignore s (int (length m)))"
    by blast
qed

lemma blank_patterns:
  "patterns blank_lexer =
     [\<lparr>pat_id = ''LETTERS'', regex = re_plus is_letter, action = None\<rparr>,
      \<lparr>pat_id = ''BLANKS'', regex = re_star (\<lambda>c. c = CHR '' ''),
       action = Some (\<lambda>m. ''blank'')\<rparr>]"
  by (simp add: blank_lexer_def)

lemma blank_stream:
  "\<not> ss_IsEOS (StringStream_init ''+1'')"
  "PeekRemainder (StringStream_init ''+1'') = ''+1''"
  "ss_GetPosition (StringStream_init ''+1'') = \<lparr>line = 1, column = 1\<rparr>"
  by (simp_all add: ss_IsEOS_def ss_GetOffset_def sio_tell_def StringStream_init_def
      sio_readlines_def Let_def PeekRemainder_def sio_read_def ss_GetPosition_def)

lemma blank_matches:
  "re_plus is_letter ''+1'' = None" "re_star (\<lambda>c. c = CHR '' '') ''+1'' = Some []"
  by (simp_all add: re_plus_def re_star_def is_letter_def)

text \<open>
  Claim C10, as stated, fails where the winning pattern has an action: the value of the
  token is what the action returns for the empty match, which need not be empty.
\<close>

theorem Lex_zero_length_value_counterexample:
  "\<not> ss_IsEOS (StringStream_init ''+1'')
   \<and> regex (patterns blank_lexer ! 0) (PeekRemainder (StringStream_init ''+1'')) = None
   \<and> regex (patterns blank_lexer ! 1) (PeekRemainder (StringStream_init ''+1'')) = Some []
   \<and> length (patterns blank_lexer) = 2
   \<and> Lex blank_lexer (StringStream_init ''+1'')
       = (\<lparr>patternID = ''BLANKS'', position = \<lparr>line = 1, column = 1\<rparr>, tok_value = ''blank''\<rparr>,
          StringStream_init ''+1'')
   \<and> tok_value (fst (Lex blank_lexer (StringStream_init ''+1''))) \<noteq> []"
  by (simp add: Lex_def Let_def blank_patterns blank_stream blank_matches Ignore_0
      Option.is_none_def)

theorem Lex_zero_length_match_witness:
  "ss_inv (StringStream_init ''+1'') \<and> \<not> ss_IsEOS (StringStream_init ''+1'')
   \<and> Lex blank_lexer (StringStream_init ''+1'')
       = (\<lparr>patternID = ''BLANKS'', position = ss_GetPosition (StringStream_init ''+1''),
           tok_value = ''blank''\<rparr>, StringStream_init ''+1'')
   \<and> ((\<lambda>u. snd (Lex blank_lexer u)) ^^ 5) (StringStream_init ''+1'') = StringStream_init ''+1''
   \<and> Lex kw_lexer (StringStream_init ''+1'')
       = (\<lparr>patternID = UNKNOWN_PATTERN_ID, position = ss_GetPosition (StringStream_init ''+1''),
           tok_value = ''+''\<rparr>, Ignore (StringStream_init ''+1'') 1)
   \<and> ss_GetOffset (Ignore (StringStream_init ''+1'') 1) = 1"
proof -
  let ?s = "StringStream_init ''+1''"
  have inv: "ss_inv ?s" by (rule ss_inv_init)
  have h: "(1::nat) < length (patterns blank_lexer)
           \<and> regex (patterns blank_lexer ! 1) (PeekRemainder ?s) = Some []
           \<and> (\<forall>j<1. regex (patterns blank_lexer ! j) (PeekRemainder ?s) = None)
           \<and> (\<forall>j<length (patterns blank_lexer). \<forall>m'.
                 regex (patterns blank_lexer ! j) (PeekRemainder ?s) = Some m' \<longrightarrow> m' = [])"
    by (simp add: blank_patterns blank_stream blank_matches All_less_Suc)
  have u: "\<forall>q \<in> set (patterns kw_lexer). regex q (PeekRemainder ?s) = None"
    by (simp add: kw_patterns blank_stream re_plus_def re_literal_def is_letter_def)
  have pk: "ss_Peek ?s = ''+''"
    by (simp add: ss_Peek_def sio_read_def StringStream_init_def sio_readlines_def Let_def)
  from Lex_zero_length_match [OF inv blank_stream(1), of 1 blank_lexer 5] h
  have a: "Lex blank_lexer ?s = (\<lparr>patternID = ''BLANKS'', position = ss_GetPosition ?s,
           tok_value = ''blank''\<rparr>, ?s)"
    and b: "((\<lambda>u. snd (Lex blank_lexer u)) ^^ 5) ?s = ?s"
    by (simp_all add: blank_patterns)
  from Lex_zero_length_match [OF inv blank_stream(1), of 0 kw_lexer 0] u
  have c0: "Lex kw_lexer ?s = (\<lparr>patternID = pat_id (patternUnknown kw_lexer),
           position = ss_GetPosition ?s,
           tok_value = (case action (patternUnknown kw_lexer) of None \<Rightarrow> ss_Peek ?s
                        | Some f \<Rightarrow> f (ss_Peek ?s))\<rparr>,
         Ignore ?s (int (length (ss_Peek ?s))))"
    and d0: "ss_GetOffset (Ignore ?s (int (length (ss_Peek ?s)))) = ss_GetOffset ?s + 1"
    by blast+
  have pu: "patternUnknown kw_lexer
      = \<lparr>pat_id = UNKNOWN_PATTERN_ID, regex = (\<lambda>s. Some []), action = None\<rparr>"
    by (simp add: kw_lexer_def Lexer_init_def)
  have o0: "ss_GetOffset ?s = 0"
    by (simp add: ss_GetOffset_def sio_tell_def StringStream_init_def sio_readlines_def Let_def)
  from c0 have c: "Lex kw_lexer ?s = (\<lparr>patternID = UNKNOWN_PATTERN_ID,
           position = ss_GetPosition ?s, tok_value = ''+''\<rparr>, Ignore ?s 1)"
    by (simp add: pk pu)
  from d0 have d: "ss_GetOffset (Ignore ?s 1) = 1"
    by (simp add: pk o0)
  from inv blank_stream(1) a b c d show ?thesis by simp
qed

subsection \<open>Pattern ids\<close>

text \<open>
  Claim C6, as stated, fails: \<^verbatim>\<open>AddPattern\<close> has no test for the two sentinel ids, and
  registers a pattern under \<^verbatim>\<open><EOS>\<close> or \<^verbatim>\<open><UNKNOWN>\<close> like under any other id.
\<close>

theorem AddPattern_sentinel_id_counterexample:
  "AddPattern ex_compile (Lexer_init None None) ''if'' None (Some EOS_PATTERN_ID)
     = Inr (EOS_PATTERN_ID, (Lexer_init None None)\<lparr>patterns :=
         [\<lparr>pat_id = EOS_PATTERN_ID, regex = re_literal ''if'', action = None\<rparr>]\<rparr>)
   \<and> AddPattern ex_compile (Lexer_init None None) ''if'' None (Some UNKNOWN_PATTERN_ID)
     = Inr (UNKNOWN_PATTERN_ID, (Lexer_init None None)\<lparr>patterns :=
         [\<lparr>pat_id = UNKNOWN_PATTERN_ID, regex = re_literal ''if'', action = None\<rparr>]\<rparr>)"
  by (simp add: AddPattern_def ex_compile_def Lexer_init_def)

text \<open>
  Claim C6, amended. When the expression compiles, \<^verbatim>\<open>AddPattern\<close> fails with an
  assertion error exactly when the id (the one given, else the synthetic
  \<^verbatim>\<open><Pattern: n>\<close> for \<open>n\<close> patterns registered so far) is the id of a registered
  pattern; the sentinel ids are not tested. Otherwise it appends the pattern, returns the
  id, leaves the sentinel patterns alone, and registered ids that were distinct stay so.
\<close>

theorem AddPattern_id_contract:
  assumes "re_compile (''^('' @ regex_src @ '')'') = Inr r"
  shows "(given_or_synthetic_id lx pid \<in> pat_id ` set (patterns lx)
           \<longrightarrow> (\<exists>msg. AddPattern re_compile lx regex_src act pid = Inl (AssertionError msg)))
       \<and> (given_or_synthetic_id lx pid \<notin> pat_id ` set (patterns lx)
           \<longrightarrow> (\<exists>lx'. AddPattern re_compile lx regex_src act pid
                        = Inr (given_or_synthetic_id lx pid, lx')
                 \<and> patterns lx' = patterns lx
                      @ [\<lparr>pat_id = given_or_synthetic_id lx pid, regex = r, action = act\<rparr>]
                 \<and> patternEOS lx' = patternEOS lx \<and> patternUnknown lx' = patternUnknown lx
                 \<and> (distinct (map pat_id (patterns lx))
                      \<longrightarrow> distinct (map pat_id (patterns lx')))))"
  using assms
  by (auto simp: AddPattern_def given_or_synthetic_id_def CreatePatternIDFromIdx_def Let_def
      split: option.splits)

lemma str_int_0_1: "str_int 0 = ''0''" "str_int 1 = ''1''"
  by (simp_all add: str_int_def str_nat.simps)

theorem AddPattern_id_contract_witness:
  "ex_compile (''^('' @ ''if'' @ '')'') = Inr (re_literal ''if'')
   \<and> (\<exists>lx1 lx2. AddPattern ex_compile (Lexer_init None None) ''if'' None None
                   = Inr (''<Pattern: 0>'', lx1)
         \<and> AddPattern ex_compile lx1 ''if'' None (Some EOS_PATTERN_ID)
                   = Inr (''<EOS>'', lx2)
         \<and> map pat_id (patterns lx2) = [''<Pattern: 0>'', ''<EOS>'']
         \<and> (\<exists>msg. AddPattern ex_compile lx2 ''if'' None (Some ''<Pattern: 0>'')
                   = Inl (AssertionError msg))
         \<and> (\<exists>lx3. AddPattern ex_compile lx2 ''if'' None None = Inr (''<Pattern: 2>'', lx3)))"
proof -
  have c: "ex_compile (''^('' @ ''if'' @ '')'') = Inr (re_literal ''if'')"
    by (simp add: ex_compile_def)
  note C = AddPattern_id_contract [where re_compile = ex_compile and regex_src = "''if''"
      and r = "re_literal ''if''" and act = None, OF c]
  let ?lx0 = "Lexer_init None None"
  have g0: "given_or_synthetic_id ?lx0 None = ''<Pattern: 0>''"
    by (simp add: given_or_synthetic_id_def CreatePatternIDFromIdx_def Lexer_init_def
        str_int_def str_nat.simps)
  have "given_or_synthetic_id ?lx0 None \<notin> pat_id ` set (patterns ?lx0)"
    by (simp add: Lexer_init_def)
  with C [where lx = ?lx0 and pid = None] g0 obtain lx1 where
    a1: "AddPattern ex_compile ?lx0 ''if'' None None = Inr (''<Pattern: 0>'', lx1)"
    and p1: "patterns lx1 = [\<lparr>pat_id = ''<Pattern: 0>'', regex = re_literal ''if'', action = None\<rparr>]"
    by (auto simp: Lexer_init_def)
  have g1: "given_or_synthetic_id lx1 (Some EOS_PATTERN_ID) = ''<EOS>''"
    by (simp add: given_or_synthetic_id_def EOS_PATTERN_ID_def)
  have "given_or_synthetic_id lx1 (Some EOS_PATTERN_ID) \<notin> pat_id ` set (patterns lx1)"
    by (simp add: g1 p1)
  with C [where lx = lx1 and pid = "Some EOS_PATTERN_ID"] g1 obtain lx2 where
    a2: "AddPattern ex_compile lx1 ''if'' None (Some EOS_PATTERN_ID) = Inr (''<EOS>'', lx2)"
    and p2: "patterns lx2 = patterns lx1
        @ [\<lparr>pat_id = ''<EOS>'', regex = re_literal ''if'', action = None\<rparr>]"
    by auto
  have ids: "map pat_id (patterns lx2) = [''<Pattern: 0>'', ''<EOS>'']"
    by (simp add: p1 p2)
  have "given_or_synthetic_id lx2 (Some ''<Pattern: 0>'') \<in> pat_id ` set (patterns lx2)"
    by (simp add: given_or_synthetic_id_def p1 p2)
  with C [where lx = lx2 and pid = "Some ''<Pattern: 0>''"] obtain msg where
    a3: "AddPattern ex_compile lx2 ''if'' None (Some ''<Pattern: 0>'') = Inl (AssertionError msg)"
    by auto
  have g3: "given_or_synthetic_id lx2 None = ''<Pattern: 2>''"
    by (simp add: given_or_synthetic_id_def CreatePatternIDFromIdx_def p1 p2 str_int_def
        str_nat.simps)
  have "given_or_synthetic_id lx2 None \<notin> pat_id ` set (patterns lx2)"
    by (simp add: g3 p1 p2)
  with C [where lx = lx2 and pid = None] g3 obtain lx3 where
    a4: "AddPattern ex_compile lx2 ''if'' None None = Inr (''<Pattern: 2>'', lx3)"
    by auto
  from a3 have e3: "\<exists>msg. AddPattern ex_compile lx2 ''if'' None (Some ''<Pattern: 0>'')
      = Inl (AssertionError msg)" ..
  from a4 have e4: "\<exists>lx3. AddPattern ex_compile lx2 ''if'' None None
      = Inr (''<Pattern: 2>'', lx3)" ..
  show ?thesis
    apply (rule conjI [OF c])
    apply (rule exI [of _ lx1])
    apply (rule exI [of _ lx2])
    apply (intro conjI a1 a2 ids e3 e4)
    done
qed

subsection \<open>A token stream over the text ab\<close>

lemma ss_ab: "StringStream_init ''ab'' = ab_ss 0"
  by (simp add: StringStream_init_def sio_readlines_def Let_def newline_def ab_ss_def)

lemma ab_init: "TokenStream_init ab_lexer ''ab'' None = Inr (ab_ts 0 0 [])"
  by (simp add: TokenStream_init_def ab_ts_def ss_ab)

lemma Lex_ab:
  "Lex ab_lexer (ab_ss 0) = (tokA, ab_ss (Suc 0))"
  "Lex ab_lexer (ab_ss (Suc 0)) = (tokB, ab_ss 2)"
  "Lex ab_lexer (ab_ss 2) = (tokE, ab_ss 2)"
  by (simp_all add: Lex_def ab_ss_def ab_lexer_def Lexer_init_def Let_def ss_GetPosition_def
      ss_GetOffset_def sio_tell_def ss_IsEOS_def PeekRemainder_def sio_read_def re_literal_def
      Ignore_def tokA_def tokB_def tokE_def Option.is_none_def)

lemma ab_Get_1: "ts_Get (ab_ts 0 0 []) = Some (Inr tokA, ab_ts 1 1 [tokA])"
  by (simp add: ts_Get.simps ts_fill.simps ab_ts_def Lex_ab ts_IsEOS_def Let_def tokA_def
      EOS_PATTERN_ID_def)

lemma ab_Get_2: "ts_Get (ab_ts 1 1 [tokA]) = Some (Inr tokB, ab_ts 2 2 [tokA, tokB])"
  by (simp add: ts_Get.simps ts_fill.simps ab_ts_def Lex_ab ts_IsEOS_def Let_def tokA_def
      tokB_def EOS_PATTERN_ID_def)

lemma ab_Get_3:
  "ts_Get (ab_ts 2 2 [tokA, tokB]) = Some (Inr tokE, ab_ts 2 2 [tokA, tokB, tokE])"
  by (simp add: ts_Get.simps ts_fill.simps ab_ts_def Lex_ab ts_IsEOS_def Let_def tokA_def
      tokB_def tokE_def EOS_PATTERN_ID_def)

lemma ab_Get_rewound:
  "ts_Get (ab_ts 2 0 [tokA, tokB, tokE]) = Some (Inr tokA, ab_ts 2 2 [tokA, tokB, tokE])"
  by (simp add: ts_Get.simps ts_fill.simps ab_ts_def ts_IsEOS_def Let_def tokA_def
      tokB_def tokE_def EOS_PATTERN_ID_def)

text \<open>
  Claim C3. \<^verbatim>\<open>Get\<close> tests \<^verbatim>\<open>IsEOS\<close>, which asks whether the cache ends with the EOS
  token, not whether the cursor is on it. Over the text \<^verbatim>\<open>ab\<close>, three calls return the
  tokens A, B and EOS and leave the cursor on the last index 2, as the claim says. After
  \<^verbatim>\<open>SetOffset(0)\<close> the next call returns A and puts the cursor on 2 again, not on 1, and
  the call after that returns EOS where the claim has B.
\<close>

theorem TokenStream_Get_rewound_after_EOS:
  "TokenStream_init ab_lexer ''ab'' None = Inr (ab_ts 0 0 [])
   \<and> ts_Get (ab_ts 0 0 []) = Some (Inr tokA, ab_ts 1 1 [tokA])
   \<and> ts_Get (ab_ts 1 1 [tokA]) = Some (Inr tokB, ab_ts 2 2 [tokA, tokB])
   \<and> ts_Get (ab_ts 2 2 [tokA, tokB]) = Some (Inr tokE, ab_ts 2 2 [tokA, tokB, tokE])
   \<and> ts_SetOffset (ab_ts 2 2 [tokA, tokB, tokE]) 0 = ab_ts 2 0 [tokA, tokB, tokE]
   \<and> ts_Get (ab_ts 2 0 [tokA, tokB, tokE]) = Some (Inr tokA, ab_ts 2 2 [tokA, tokB, tokE])
   \<and> ts_offset (ab_ts 2 2 [tokA, tokB, tokE]) = 2
   \<and> ts_Get (ab_ts 2 2 [tokA, tokB, tokE]) = Some (Inr tokE, ab_ts 2 2 [tokA, tokB, tokE])"
proof -
  have so: "ts_SetOffset (ab_ts 2 2 [tokA, tokB, tokE]) 0 = ab_ts 2 0 [tokA, tokB, tokE]"
    by (simp add: ts_SetOffset_def ab_ts_def)
  have off: "ts_offset (ab_ts 2 2 [tokA, tokB, tokE]) = 2"
    by (simp add: ab_ts_def)
  have last: "ts_Get (ab_ts 2 2 [tokA, tokB, tokE])
      = Some (Inr tokE, ab_ts 2 2 [tokA, tokB, tokE])"
    by (simp add: ts_Get.simps ts_fill.simps ab_ts_def ts_IsEOS_def Let_def tokE_def
        EOS_PATTERN_ID_def)
  from ab_init ab_Get_1 ab_Get_2 ab_Get_3 so ab_Get_rewound off last show ?thesis by simp
qed

subsection \<open>Facts about the token stream\<close>

lemma ts_fill_frame [simp]:
  "lexer (ts_fill s) = lexer s" "ignores (ts_fill s) = ignores s"
  "ts_offset (ts_fill s) = ts_offset s"
  by (induction s rule: ts_fill.induct, subst ts_fill.simps, simp)+

lemma ts_fill_fixed:
  "ts_offset s < length (tokens s) \<or> ts_IsEOS s \<Longrightarrow> ts_fill s = s"
  by (subst ts_fill.simps) auto

lemma ts_fill_step:
  "length (tokens s) \<le> ts_offset s \<Longrightarrow> \<not> ts_IsEOS s \<Longrightarrow>
   ts_fill s = ts_fill (s\<lparr>ts_stream := snd (Lex (lexer s) (ts_stream s)),
                      tokens := tokens s @ [fst (Lex (lexer s) (ts_stream s))]\<rparr>)"
  by (subst ts_fill.simps) simp

lemma ts_fill_prefix: "\<exists>ext. tokens (ts_fill s) = tokens s @ ext"
proof (induction s rule: ts_fill.induct)
  case (1 s)
  show ?case
  proof (cases "length (tokens s) \<le> ts_offset s \<and> \<not> ts_IsEOS s")
    case True
    with 1 obtain ext where "tokens (ts_fill (s\<lparr>ts_stream := snd (Lex (lexer s) (ts_stream s)),
        tokens := tokens s @ [fst (Lex (lexer s) (ts_stream s))]\<rparr>))
      = (tokens s @ [fst (Lex (lexer s) (ts_stream s))]) @ ext" by fastforce
    with True show ?thesis using ts_fill_step [of s] by simp
  next
    case False
    then show ?thesis using ts_fill_fixed [of s] by auto
  qed
qed

lemma ts_fill_mono: "length (tokens s) \<le> length (tokens (ts_fill s))"
  using ts_fill_prefix [of s] by auto

lemma ts_Get_unfold:
  "ts_Get s =
     (if ts_offset s < length (tokens (ts_fill s))
      then if patternID (tokens (ts_fill s) ! ts_offset s) \<in> set (ignores s)
           then ts_Get (ts_next s)
           else Some (Inr (tokens (ts_fill s) ! ts_offset s), ts_next s)
      else Some (Inl IndexError, ts_fill s))"
  by (subst ts_Get.simps) (simp add: Let_def ts_next_def)

lemma ts_Get_induct [consumes 1, case_names IndexError Return Skip]:
  assumes get: "ts_Get s = Some y"
    and idx: "\<And>s. \<not> ts_offset s < length (tokens (ts_fill s)) \<Longrightarrow> P s (Inl IndexError, ts_fill s)"
    and ret: "\<And>s. ts_offset s < length (tokens (ts_fill s)) \<Longrightarrow>
        patternID (tokens (ts_fill s) ! ts_offset s) \<notin> set (ignores s) \<Longrightarrow>
        P s (Inr (tokens (ts_fill s) ! ts_offset s), ts_next s)"
    and skip: "\<And>s y. ts_offset s < length (tokens (ts_fill s)) \<Longrightarrow>
        patternID (tokens (ts_fill s) ! ts_offset s) \<in> set (ignores s) \<Longrightarrow>
        ts_Get (ts_next s) = Some y \<Longrightarrow> P (ts_next s) y \<Longrightarrow> P s y"
  shows "P s y"
proof -
  have "ts_Get s = Some y \<and> P s y"
  proof (rule ts_Get.raw_induct [OF _ get])
    fix g s y
    assume IH: "\<And>x y. g x = Some y \<Longrightarrow> ts_Get x = Some y \<and> P x y"
      and body: "(let s1 = ts_fill s
        in if ts_offset s1 < length (tokens s1)
           then let token = tokens s1 ! ts_offset s1;
                    s2 = s1\<lparr>ts_offset := if ts_IsEOS s1 then length (tokens s1) - 1
                                         else ts_offset s1 + 1\<rparr>
                in if patternID token \<in> set (ignores s2) then g s2 else Some (Inr token, s2)
           else Some (Inl IndexError, s1)) = Some y"
    show "ts_Get s = Some y \<and> P s y"
    proof (cases "ts_offset s < length (tokens (ts_fill s))")
      case False
      with body have "y = (Inl IndexError, ts_fill s)" by (simp add: Let_def)
      with False idx [of s] show ?thesis by (simp add: ts_Get_unfold)
    next
      case True
      show ?thesis
      proof (cases "patternID (tokens (ts_fill s) ! ts_offset s) \<in> set (ignores s)")
        case False
        with body True have "y = (Inr (tokens (ts_fill s) ! ts_offset s), ts_next s)"
          by (auto simp: Let_def ts_next_def)
        with True False ret [of s] show ?thesis by (simp add: ts_Get_unfold)
      next
        case ign: True
        with body True have "g (ts_next s) = Some y" by (auto simp: Let_def ts_next_def)
        from IH [OF this] True ign skip [of s y] show ?thesis by (simp add: ts_Get_unfold)
      qed
    qed
  qed
  then show ?thesis ..
qed

lemma ts_next_frame [simp]:
  "lexer (ts_next s) = lexer s" "ignores (ts_next s) = ignores s"
  "tokens (ts_next s) = tokens (ts_fill s)" "ts_stream (ts_next s) = ts_stream (ts_fill s)"
  by (simp_all add: ts_next_def)

lemma ts_Get_frame:
  "ts_Get s = Some y \<Longrightarrow> lexer (snd y) = lexer s \<and> ignores (snd y) = ignores s"
  by (induction rule: ts_Get_induct) simp_all

lemma ts_Get_mono_aux:
  "ts_Get s = Some y \<Longrightarrow> length (tokens s) \<le> length (tokens (snd y))"
proof (induction rule: ts_Get_induct)
  case (Skip s y)
  then show ?case using ts_fill_mono [of s] by simp
qed (simp_all add: ts_fill_mono)

lemma ts_Get_mono: "ts_Get s = Some (r, s') \<Longrightarrow> length (tokens s) \<le> length (tokens s')"
  using ts_Get_mono_aux [of s "(r, s')"] by simp

lemma ts_Get_cached_aux:
  "ts_Get s = Some y \<Longrightarrow> (\<forall>t. fst y = Inr t \<longrightarrow> ts_offset s < length (tokens (snd y)))"
proof (induction rule: ts_Get_induct)
  case (Skip s y)
  have "length (tokens (ts_next s)) \<le> length (tokens (snd y))"
    using Skip.hyps(3) by (rule ts_Get_mono_aux)
  with Skip.hyps(1) show ?case by simp
qed simp_all

lemma ts_Get_cached: "ts_Get s = Some (Inr t, s') \<Longrightarrow> ts_offset s < length (tokens s')"
  using ts_Get_cached_aux [of s "(Inr t, s')"] by simp

lemma ts_Get_error_aux:
  "ts_Get s = Some y \<Longrightarrow> (\<forall>e. fst y = Inl e \<longrightarrow> e = IndexError)"
  by (induction rule: ts_Get_induct) simp_all

lemma ts_Get_error: "ts_Get s = Some (Inl e, s') \<Longrightarrow> e = IndexError"
  using ts_Get_error_aux [of s "(Inl e, s')"] by simp

lemma ts_Peek_mono: "ts_Peek s = Some (r, s') \<Longrightarrow> length (tokens s) \<le> length (tokens s')"
  by (auto simp: ts_Peek_def split: option.splits sum.splits prod.splits dest: ts_Get_mono)

lemma ts_Peek_cached: "ts_Peek s = Some (Inr t, s') \<Longrightarrow> ts_offset s < length (tokens s')"
  by (auto simp: ts_Peek_def split: option.splits sum.splits prod.splits dest: ts_Get_cached)

lemma ts_Peek_offset: "ts_Peek s = Some (Inr t, s') \<Longrightarrow> ts_offset s' = ts_offset s"
  by (auto simp: ts_Peek_def split: option.splits sum.splits prod.splits)

lemma ts_Peek_error: "ts_Peek s = Some (Inl e, s') \<Longrightarrow> e = IndexError"
  by (auto simp: ts_Peek_def split: option.splits sum.splits prod.splits dest: ts_Get_error)

lemma ts_GetPosition_mono:
  "ts_GetPosition s = Some (r, s') \<Longrightarrow> length (tokens s) \<le> length (tokens s')"
  by (auto simp: ts_GetPosition_def split: option.splits sum.splits prod.splits dest: ts_Peek_mono)

lemma ts_GetPosition_offset:
  "ts_GetPosition s = Some (Inr p, s') \<Longrightarrow> ts_offset s' = ts_offset s"
  by (auto simp: ts_GetPosition_def split: option.splits sum.splits prod.splits
      dest: ts_Peek_offset)

lemma ts_GetPosition_error: "ts_GetPosition s = Some (Inl e, s') \<Longrightarrow> e = IndexError"
  by (auto simp: ts_GetPosition_def split: option.splits sum.splits prod.splits
      dest: ts_Peek_error)

subsection \<open>The cache only grows\<close>

lemma cache_growsD:
  "cache_grows f \<Longrightarrow> f s = Some (r, s') \<Longrightarrow> length (tokens s) \<le> length (tokens s')"
  by (auto simp: cache_grows_def)

lemma skip_ignored_aux:
  assumes "skip_ignored ign s = Some y"
  shows "length (tokens s) \<le> length (tokens (snd y))
       \<and> (\<forall>e. fst y = Inl e \<longrightarrow> e = IndexError)
       \<and> (\<forall>u. fst y = Inr u \<longrightarrow> ts_offset s < length (tokens (snd y)))"
proof (rule skip_ignored.raw_induct [OF _ assms])
  fix skip ign s y
  assume IH: "\<And>ign s y. skip ign s = Some y \<Longrightarrow>
        length (tokens s) \<le> length (tokens (snd y))
       \<and> (\<forall>e. fst y = Inl e \<longrightarrow> e = IndexError)
       \<and> (\<forall>u. fst y = Inr u \<longrightarrow> ts_offset s < length (tokens (snd y)))"
    and body: "(case ts_Peek s of
        None \<Rightarrow> None
      | Some (Inl e, s1) \<Rightarrow> Some (Inl e, s1)
      | Some (Inr token, s1) \<Rightarrow>
          if patternID token \<in> set ign
          then (case ts_Get s1 of
                  None \<Rightarrow> None
                | Some (Inl e, s2) \<Rightarrow> Some (Inl e, s2)
                | Some (Inr _, s2) \<Rightarrow> skip ign s2)
          else Some (Inr (), s1)) = Some y"
  from body obtain r s1 where pk: "ts_Peek s = Some (r, s1)"
    by (cases "ts_Peek s") auto
  show "length (tokens s) \<le> length (tokens (snd y))
       \<and> (\<forall>e. fst y = Inl e \<longrightarrow> e = IndexError)
       \<and> (\<forall>u. fst y = Inr u \<longrightarrow> ts_offset s < length (tokens (snd y)))"
  proof (cases r)
    case (Inl e)
    with body pk have "y = (Inl e, s1)" by simp
    with pk Inl show ?thesis using ts_Peek_mono [of s r s1] ts_Peek_error [of s e s1] by simp
  next
    case (Inr tok)
    note m1 = ts_Peek_mono [OF pk] and c1 = ts_Peek_cached [OF pk [unfolded Inr]]
    show ?thesis
    proof (cases "patternID tok \<in> set ign")
      case False
      with body pk Inr have "y = (Inr (), s1)" by simp
      with m1 c1 show ?thesis by simp
    next
      case True
      with body pk Inr obtain r2 s2 where g: "ts_Get s1 = Some (r2, s2)"
        by (cases "ts_Get s1") auto
      note m2 = ts_Get_mono [OF g]
      show ?thesis
      proof (cases r2)
        case (Inl e)
        with body pk Inr True g have "y = (Inl e, s2)" by simp
        with m1 m2 g Inl show ?thesis using ts_Get_error [of s1 e s2] by simp
      next
        case (Inr t2)
        with body pk \<open>r = Inr tok\<close> True g have "skip ign s2 = Some y" by simp
        from IH [OF this] m1 m2 c1 show ?thesis by auto
      qed
    qed
  qed
qed

lemma skip_ignored_mono:
  "skip_ignored ign s = Some (r, s') \<Longrightarrow> length (tokens s) \<le> length (tokens s')"
  using skip_ignored_aux [of ign s "(r, s')"] by simp

lemma skip_ignored_error: "skip_ignored ign s = Some (Inl e, s') \<Longrightarrow> e = IndexError"
  using skip_ignored_aux [of ign s "(Inl e, s')"] by simp

lemma skip_ignored_cached:
  "skip_ignored ign s = Some (Inr u, s') \<Longrightarrow> ts_offset s < length (tokens s')"
  using skip_ignored_aux [of ign s "(Inr u, s')"] by simp

lemma ts_SetOffset_tokens [simp]: "tokens (ts_SetOffset s off) = tokens s"
  by (simp add: ts_SetOffset_def)

lemma ts_SetOffset_cached:
  "off < length (tokens s) \<Longrightarrow> ts_offset (ts_SetOffset s (int off)) = off"
  by (auto simp: ts_SetOffset_def)

lemma parse_except_mono:
  "parse_except name off e s = Some (r, s') \<Longrightarrow> length (tokens s) \<le> length (tokens s')"
  by (cases e)
    (auto simp: parse_except_def split: option.splits sum.splits prod.splits
      dest: ts_GetPosition_mono)

lemma parse_except_other:
  "(\<And>p msg. e \<noteq> ParserError p msg) \<Longrightarrow> parse_except name off e s = Some (Inl e, s)"
  by (cases e) (auto simp: parse_except_def)

lemma parse_except_backtrack:
  assumes "parse_except name (int off) e s = Some (Inl (ParserError p msg), s')"
    and "off < length (tokens s)"
  shows "ts_offset s' = off"
proof (cases e)
  case (ParserError p0 msg0)
  with assms(1) obtain r s2 where g: "ts_GetPosition (ts_SetOffset s (int off)) = Some (r, s2)"
    by (cases "ts_GetPosition (ts_SetOffset s (int off))") (auto simp: parse_except_def)
  show ?thesis
  proof (cases r)
    case (Inl e')
    with g have "e' = IndexError" by (auto dest: ts_GetPosition_error)
    with assms(1) ParserError g Inl show ?thesis by (simp add: parse_except_def)
  next
    case (Inr here)
    with assms(1) ParserError g have "s' = s2" by (simp add: parse_except_def)
    with g Inr assms(2) show ?thesis
      using ts_GetPosition_offset [of "ts_SetOffset s (int off)" here s2]
      by (simp add: ts_SetOffset_cached)
  qed
qed (use assms(1) in \<open>auto simp: parse_except_def\<close>)

lemma Parser_parse_mono:
  assumes "\<And>start. cache_grows (body start)"
  shows "cache_grows (Parser_parse body name tr ign)"
  unfolding cache_grows_def
proof (intro allI impI)
  fix s r s'
  assume P: "Parser_parse body name tr ign s = Some (r, s')"
  then obtain r1 s1 where sk: "skip_ignored ign s = Some (r1, s1)"
    by (cases "skip_ignored ign s") (auto simp: Parser_parse_def Let_def)
  note m1 = skip_ignored_mono [OF sk]
  show "length (tokens s) \<le> length (tokens s')"
  proof (cases r1)
    case (Inl e)
    with P sk show ?thesis using m1 parse_except_mono [of name "ts_GetOffset s" e s1 r s']
      by (simp add: Parser_parse_def Let_def)
  next
    case (Inr u)
    with P sk obtain r2 s2 where gp: "ts_GetPosition s1 = Some (r2, s2)"
      by (cases "ts_GetPosition s1") (auto simp: Parser_parse_def Let_def)
    note m2 = ts_GetPosition_mono [OF gp]
    show ?thesis
    proof (cases r2)
      case (Inl e)
      with P sk Inr gp show ?thesis
        using m1 m2 parse_except_mono [of name "ts_GetOffset s" e s2 r s']
        by (simp add: Parser_parse_def Let_def)
    next
      case start: (Inr start)
      with P sk Inr gp obtain r3 s3 where b: "body start s2 = Some (r3, s3)"
        by (cases "body start s2") (auto simp: Parser_parse_def Let_def)
      note m3 = cache_growsD [OF assms b]
      show ?thesis
      proof (cases r3)
        case (Inl e)
        with P sk Inr gp start b show ?thesis
          using m1 m2 m3 parse_except_mono [of name "ts_GetOffset s" e s3 r s']
          by (simp add: Parser_parse_def Let_def)
      next
        case res: (Inr result)
        show ?thesis
        proof (cases "apply_transformer tr (snd result)")
          case (Inl e)
          with P sk Inr gp start b res show ?thesis
            using m1 m2 m3 parse_except_mono [of name "ts_GetOffset s" e s3 r s']
            by (simp add: Parser_parse_def Let_def)
        next
          case (Inr v)
          with P sk \<open>r1 = Inr u\<close> gp start b res have "s' = s3"
            by (simp add: Parser_parse_def Let_def)
          with m1 m2 m3 show ?thesis by simp
        qed
      qed
    qed
  qed
qed

lemma Parser_parse_backtrack:
  assumes grows: "\<And>start. cache_grows (body start)"
    and P: "Parser_parse body name tr ign s = Some (Inl (ParserError p msg), s')"
  shows "ts_offset s' = ts_offset s"
proof -
  from P obtain r1 s1 where sk: "skip_ignored ign s = Some (r1, s1)"
    by (cases "skip_ignored ign s") (auto simp: Parser_parse_def Let_def)
  show ?thesis
  proof (cases r1)
    case (Inl e)
    with sk have "e = IndexError" by (auto dest: skip_ignored_error)
    with P sk Inl show ?thesis by (simp add: Parser_parse_def Let_def parse_except_def)
  next
    case (Inr u)
    note c1 = skip_ignored_cached [OF sk [unfolded Inr]]
    from P sk Inr obtain r2 s2 where gp: "ts_GetPosition s1 = Some (r2, s2)"
      by (cases "ts_GetPosition s1") (auto simp: Parser_parse_def Let_def)
    note m2 = ts_GetPosition_mono [OF gp]
    show ?thesis
    proof (cases r2)
      case (Inl e)
      with gp have "e = IndexError" by (auto dest: ts_GetPosition_error)
      with P sk Inr gp Inl show ?thesis by (simp add: Parser_parse_def Let_def parse_except_def)
    next
      case start: (Inr start)
      with P sk Inr gp obtain r3 s3 where b: "body start s2 = Some (r3, s3)"
        by (cases "body start s2") (auto simp: Parser_parse_def Let_def)
      note m3 = cache_growsD [OF grows b]
      from c1 m2 m3 have c3: "ts_offset s < length (tokens s3)" by simp
      show ?thesis
      proof (cases r3)
        case (Inl e)
        with P sk Inr gp start b
        have "parse_except name (int (ts_offset s)) e s3 = Some (Inl (ParserError p msg), s')"
          by (simp add: Parser_parse_def Let_def ts_GetOffset_def)
        then show ?thesis using c3 by (rule parse_except_backtrack)
      next
        case res: (Inr result)
        show ?thesis
        proof (cases "apply_transformer tr (snd result)")
          case (Inl e)
          with P sk Inr gp start b res
          have "parse_except name (int (ts_offset s)) e s3 = Some (Inl (ParserError p msg), s')"
            by (simp add: Parser_parse_def Let_def ts_GetOffset_def)
          then show ?thesis using c3 by (rule parse_except_backtrack)
        next
          case (Inr v)
          with P sk \<open>r1 = Inr u\<close> gp start b res show ?thesis
            by (simp add: Parser_parse_def Let_def)
        qed
      qed
    qed
  qed
qed

lemma cache_growsI:
  "(\<And>s r s'. f s = Some (r, s') \<Longrightarrow> length (tokens s) \<le> length (tokens s')) \<Longrightarrow> cache_grows f"
  by (auto simp: cache_grows_def)

lemma Terminal_parse_mono: "cache_grows (Terminal_parse pid v start)"
  unfolding cache_grows_def
  by (auto simp: Terminal_parse_def Let_def split: option.splits sum.splits prod.splits if_splits
      dest: ts_Get_mono)

lemma Sequence_loop_mono:
  assumes "\<forall>f \<in> set subs. cache_grows f"
    and "Sequence_loop subs results s = Some (r, s')"
  shows "length (tokens s) \<le> length (tokens s')"
  using assms
proof (induction subs arbitrary: results s)
  case Nil
  then show ?case by simp
next
  case (Cons f subs)
  from Cons.prems(2) obtain r1 s1 where f: "f s = Some (r1, s1)"
    by (cases "f s") auto
  from Cons.prems(1) f have m: "length (tokens s) \<le> length (tokens s1)"
    by (auto dest: cache_growsD)
  show ?case
  proof (cases r1)
    case (Inl e)
    with Cons.prems(2) f m show ?thesis by simp
  next
    case (Inr x)
    with Cons.prems(2) f have "Sequence_loop subs (results @ [x]) s1 = Some (r, s')" by simp
    with Cons.IH Cons.prems(1) have "length (tokens s1) \<le> length (tokens s')" by simp
    with m show ?thesis by simp
  qed
qed

lemma Sequence_parse_mono:
  assumes "\<forall>f \<in> set subs. cache_grows f"
  shows "cache_grows (Sequence_parse subs start)"
proof (rule cache_growsI)
  fix s r s' assume "Sequence_parse subs start s = Some (r, s')"
  then show "length (tokens s) \<le> length (tokens s')"
    using Sequence_loop_mono [OF assms]
    by (auto simp: Sequence_parse_def split: option.splits sum.splits prod.splits)
qed

lemma Choice_loop_mono:
  assumes "\<forall>f \<in> set subs. cache_grows (snd f)"
    and "Choice_loop subs tag ex s = Some (r, s')"
  shows "length (tokens s) \<le> length (tokens s')"
  using assms
proof (induction subs arbitrary: s)
  case Nil
  then show ?case by simp
next
  case (Cons nf subs)
  obtain name f where nf: "nf = (name, f)" by (cases nf)
  from Cons.prems(2) nf obtain r1 s1 where f: "f s = Some (r1, s1)"
    by (cases "f s") auto
  from Cons.prems(1) nf f have m: "length (tokens s) \<le> length (tokens s1)"
    by (auto dest: cache_growsD)
  show ?case
  proof (cases r1)
    case (Inr x)
    with Cons.prems(2) nf f m show ?thesis by auto
  next
    case (Inl e)
    show ?thesis
    proof (cases "\<exists>p msg. e = ParserError p msg")
      case True
      with Cons.prems(2) nf f Inl have "Choice_loop subs tag ex s1 = Some (r, s')" by auto
      with Cons.IH Cons.prems(1) have "length (tokens s1) \<le> length (tokens s')" by simp
      with m show ?thesis by simp
    next
      case False
      with Cons.prems(2) nf f Inl m show ?thesis by (cases e) auto
    qed
  qed
qed

lemma Choice_parse_mono:
  assumes "\<forall>f \<in> set subs. cache_grows (snd f)"
  shows "cache_grows (Choice_parse subs tag start)"
proof (rule cache_growsI)
  fix s r s' assume "Choice_parse subs tag start s = Some (r, s')"
  then show "length (tokens s) \<le> length (tokens s')"
    using Choice_loop_mono [OF assms] by (simp add: Choice_parse_def)
qed

lemma Quantified_loop_mono:
  assumes "cache_grows sub"
    and "Quantified_loop fuel sub name mn mx results s = Some (r, s')"
  shows "length (tokens s) \<le> length (tokens s')"
  using assms(2)
proof (induction fuel arbitrary: results s)
  case 0
  then show ?case by simp
next
  case (Suc fuel)
  show ?case
  proof (cases "case mx of None \<Rightarrow> True | Some m \<Rightarrow> int (length results) < m")
    case False
    with Suc.prems show ?thesis by simp
  next
    case True
    with Suc.prems obtain r1 s1 where f: "sub s = Some (r1, s1)"
      by (cases "sub s") auto
    from assms(1) f have m: "length (tokens s) \<le> length (tokens s1)"
      by (rule cache_growsD)
    show ?thesis
    proof (cases r1)
      case (Inr x)
      with Suc.prems True f
      have "Quantified_loop fuel sub name mn mx (results @ [x]) s1 = Some (r, s')" by simp
      from Suc.IH [OF this] m show ?thesis by simp
    next
      case (Inl e)
      show ?thesis
      proof (cases "\<exists>p msg. e = ParserError p msg")
        case False
        with Suc.prems True f Inl m show ?thesis by (cases e) auto
      next
        case pe: True
        show ?thesis
        proof (cases "int (length results) < mn")
          case False
          with Suc.prems True f Inl pe m show ?thesis by auto
        next
          case lt: True
          with Suc.prems True f Inl pe obtain r2 s2 where
            g: "ts_GetPosition s1 = Some (r2, s2)" and "s' = s2"
            by (cases "ts_GetPosition s1") (auto split: sum.splits)
          with m ts_GetPosition_mono [OF g] show ?thesis by simp
        qed
      qed
    qed
  qed
qed

lemma Quantified_parse_mono:
  assumes "cache_grows sub"
  shows "cache_grows (Quantified_parse fuel sub name mn mx start)"
proof (rule cache_growsI)
  fix s r s' assume "Quantified_parse fuel sub name mn mx start s = Some (r, s')"
  then show "length (tokens s) \<le> length (tokens s')"
    using Quantified_loop_mono [OF assms]
    by (auto simp: Quantified_parse_def split: option.splits sum.splits prod.splits)
qed

lemma Separated_parse_mono:
  assumes "cache_grows inner"
  shows "cache_grows (Separated_parse inner start)"
proof (rule cache_growsI)
  fix s r s' assume "Separated_parse inner start s = Some (r, s')"
  then show "length (tokens s) \<le> length (tokens s')"
    using cache_growsD [OF assms]
    by (auto simp: Separated_parse_def split: option.splits sum.splits prod.splits error.splits)
qed

lemma parse_mono: "cache_grows (parse n G p)"
proof (induction n arbitrary: p)
  case 0
  show ?case by (simp add: cache_grows_def)
next
  case (Suc n)
  show ?case
  proof (cases p)
    case (Lazy name key)
    show ?thesis
    proof (cases "G key")
      case None
      with Lazy show ?thesis by (simp add: cache_grows_def)
    next
      case (Some q)
      with Lazy Suc [of q] show ?thesis by (simp add: cache_grows_def)
    qed
  next
    case (Terminal name pid v tr ign)
    have "cache_grows (Parser_parse (Terminal_parse pid v) name tr ign)"
      by (rule Parser_parse_mono) (rule Terminal_parse_mono)
    with Terminal show ?thesis by (simp add: cache_grows_def)
  next
    case (Sequence name ps tr ign)
    have "cache_grows (Parser_parse (Sequence_parse (map (parse n G) ps)) name tr ign)"
      by (rule Parser_parse_mono, rule Sequence_parse_mono) (simp add: Suc)
    with Sequence show ?thesis by (simp add: cache_grows_def)
  next
    case (Choice name ps tag tr ign)
    have "cache_grows (Parser_parse
        (Choice_parse (map (\<lambda>p. (GetName p, parse n G p)) ps) tag) name tr ign)"
      by (rule Parser_parse_mono, rule Choice_parse_mono) (simp add: Suc)
    with Choice show ?thesis by (simp add: cache_grows_def)
  next
    case (Quantified name q mn mx tr ign)
    have "cache_grows (Parser_parse
        (Quantified_parse n (parse n G q) (GetName q) mn mx) name tr ign)"
      by (rule Parser_parse_mono, rule Quantified_parse_mono) (rule Suc)
    with Quantified show ?thesis by (simp add: cache_grows_def)
  next
    case (Separated name val sep tr ign)
    have "cache_grows (Parser_parse
        (Separated_parse (parse n G (Separated_parser name val sep ign))) name tr ign)"
      by (rule Parser_parse_mono, rule Separated_parse_mono) (rule Suc)
    with Separated show ?thesis by (simp add: cache_grows_def)
  qed
qed

lemma parse_restores_cursor:
  "parse n G p s = Some (Inl (ParserError epos msg), s') \<Longrightarrow> ts_offset s' = ts_offset s"
proof (induction n arbitrary: p)
  case 0
  then show ?case by simp
next
  case (Suc n)
  show ?case
  proof (cases p)
    case (Lazy name key)
    with Suc.prems show ?thesis by (cases "G key") (auto dest: Suc.IH)
  next
    case (Terminal name pid v tr ign)
    with Suc.prems show ?thesis
      by (auto intro: Parser_parse_backtrack [OF Terminal_parse_mono])
  next
    case (Sequence name ps tr ign)
    have "\<And>start. cache_grows (Sequence_parse (map (parse n G) ps) start)"
      by (rule Sequence_parse_mono) (simp add: parse_mono)
    from Parser_parse_backtrack [OF this] Suc.prems Sequence show ?thesis by auto
  next
    case (Choice name ps tag tr ign)
    have "\<And>start. cache_grows (Choice_parse (map (\<lambda>p. (GetName p, parse n G p)) ps) tag start)"
      by (rule Choice_parse_mono) (simp add: parse_mono)
    from Parser_parse_backtrack [OF this] Suc.prems Choice show ?thesis by auto
  next
    case (Quantified name q mn mx tr ign)
    have "\<And>start. cache_grows (Quantified_parse n (parse n G q) (GetName q) mn mx start)"
      by (rule Quantified_parse_mono) (rule parse_mono)
    from Parser_parse_backtrack [OF this] Suc.prems Quantified show ?thesis by auto
  next
    case (Separated name val sep tr ign)
    have "\<And>start. cache_grows
        (Separated_parse (parse n G (Separated_parser name val sep ign)) start)"
      by (rule Separated_parse_mono) (rule parse_mono)
    from Parser_parse_backtrack [OF this] Suc.prems Separated show ?thesis by auto
  qed
qed

subsection \<open>Backtracking\<close>

lemmas ab_eval = ts_Get.simps ts_fill.simps ab_ts_def Lex_ab ts_IsEOS_def Let_def tokA_def
      tokB_def tokE_def EOS_PATTERN_ID_def ts_Peek_def ts_GetPosition_def skip_ignored.simps
      Parser_parse_def Terminal_parse_def ts_GetOffset_def ts_SetOffset_def parse_except_def
      apply_transformer_def Sequence_parse_def results_value_def to_val_def
      Expectation_def Expectation_msg_def Combine_def Error_str_def Position_str_def
      str_int_def str_nat.simps

text \<open>
  Claim C1. Whatever the node, the rule table and the state of the token stream, when
  \<^verbatim>\<open>parse\<close> raises a \<^verbatim>\<open>Parser.Error\<close> the cursor of the stream is where it was before
  the call.
\<close>

theorem parse_backtracking_purity:
  assumes "parse n G p s = Some (Inl (ParserError epos msg), s')"
  shows "ts_GetOffset s' = ts_GetOffset s"
  using parse_restores_cursor [OF assms] by (simp add: ts_GetOffset_def)

theorem parse_backtracking_purity_witness:
  "parse 2 Map.empty seq_AA (ab_ts 0 0 [])
     = Some (Inl (ParserError \<lparr>line = 1, column = 1\<rparr>
          (''Unable to parse pair'' @ [newline]
           @ ''Error @ (1, 2): Unable to parse second'' @ [newline]
           @ ''Error @ (1, 2): Expected , but found B(b)'')),
        ab_ts 2 0 [tokA, tokB])
   \<and> ts_GetOffset (ab_ts 2 0 [tokA, tokB]) = ts_GetOffset (ab_ts 0 0 [])
   \<and> tokens (ab_ts 2 0 [tokA, tokB]) = [tokA, tokB]"
proof -
  have e: "parse 2 Map.empty seq_AA (ab_ts 0 0 [])
     = Some (Inl (ParserError \<lparr>line = 1, column = 1\<rparr>
          (''Unable to parse pair'' @ [newline]
           @ ''Error @ (1, 2): Unable to parse second'' @ [newline]
           @ ''Error @ (1, 2): Expected , but found B(b)'')),
        ab_ts 2 0 [tokA, tokB])"
    by (simp add: seq_AA_def ab_eval numeral_2_eq_2)
  from parse_backtracking_purity [OF e] e show ?thesis by (simp add: ab_ts_def)
qed

subsection \<open>Peeking twice\<close>

lemma ts_fill_bound:
  "length (tokens s) \<le> ts_offset s \<Longrightarrow> length (tokens (ts_fill s)) \<le> ts_offset s + 1"
proof (induction s rule: ts_fill.induct)
  case (1 s)
  show ?case
  proof (cases "\<not> ts_IsEOS s")
    case False
    then show ?thesis using "1.prems" ts_fill_fixed [of s] by simp
  next
    case True
    let ?s' = "s\<lparr>ts_stream := snd (Lex (lexer s) (ts_stream s)),
                 tokens := tokens s @ [fst (Lex (lexer s) (ts_stream s))]\<rparr>"
    have st: "ts_fill s = ts_fill ?s'" by (rule ts_fill_step [OF "1.prems" True])
    show ?thesis
    proof (cases "length (tokens ?s') \<le> ts_offset ?s'")
      case le: True
      with "1.IH" [OF conjI [OF "1.prems" True]] st show ?thesis by simp
    next
      case False
      then have "ts_fill ?s' = ?s'" by (intro ts_fill_fixed) simp
      with st "1.prems" show ?thesis by simp
    qed
  qed
qed

lemma ts_fill_new_EOS:
  assumes "\<not> ts_IsEOS s" and "ts_IsEOS (ts_fill s)" and "ts_offset s < length (tokens (ts_fill s))"
  shows "ts_offset s = length (tokens (ts_fill s)) - 1"
proof -
  have "length (tokens s) \<le> ts_offset s"
  proof (rule ccontr)
    assume "\<not> length (tokens s) \<le> ts_offset s"
    then have "ts_fill s = s" by (intro ts_fill_fixed) simp
    with assms(1,2) show False by simp
  qed
  from ts_fill_bound [OF this] assms(3) show ?thesis by simp
qed

lemma ts_IsEOS_cong: "tokens s = tokens s' \<Longrightarrow> ts_IsEOS s = ts_IsEOS s'"
  by (simp add: ts_IsEOS_def)

lemma ts_next_IsEOS [simp]: "ts_IsEOS (ts_next s) = ts_IsEOS (ts_fill s)"
  by (rule ts_IsEOS_cong) simp

lemma ts_next_offset:
  "ts_offset (ts_next s) =
     (if ts_IsEOS (ts_fill s) then length (tokens (ts_fill s)) - 1 else ts_offset s + 1)"
  by (simp add: ts_next_def)

lemma ts_Get_prefix:
  "ts_Get s = Some y \<Longrightarrow> \<exists>ext. tokens (snd y) = tokens s @ ext"
proof (induction rule: ts_Get_induct)
  case (IndexError s)
  then show ?case using ts_fill_prefix [of s] by simp
next
  case (Return s)
  then show ?case using ts_fill_prefix [of s] by simp
next
  case (Skip s y)
  then show ?case using ts_fill_prefix [of s] by auto
qed

lemma ts_Get_at_EOS:
  "ts_Get s = Some y \<Longrightarrow> ts_IsEOS s \<longrightarrow> tokens (snd y) = tokens s"
proof (induction rule: ts_Get_induct)
  case (Skip s y)
  then show ?case using ts_fill_fixed [of s] by auto
qed (auto simp: ts_fill_fixed)

lemma ts_Get_not_ignored:
  "ts_Get s = Some y \<Longrightarrow> \<forall>t. fst y = Inr t \<longrightarrow> patternID t \<notin> set (ignores s)"
  by (induction rule: ts_Get_induct) simp_all

lemma ts_Get_ignored_EOS:
  "ts_Get s = Some y \<Longrightarrow>
   \<not> (ts_IsEOS s \<and> ts_offset s = length (tokens s) - 1
      \<and> patternID (last (tokens s)) \<in> set (ignores s))"
proof (induction rule: ts_Get_induct)
  case (IndexError s)
  then show ?case using ts_fill_fixed [of s] by (auto simp: ts_IsEOS_def)
next
  case (Return s)
  then show ?case using ts_fill_fixed [of s] by (auto simp: ts_IsEOS_def last_conv_nth)
next
  case (Skip s y)
  show ?case
  proof
    assume a: "ts_IsEOS s \<and> ts_offset s = length (tokens s) - 1
      \<and> patternID (last (tokens s)) \<in> set (ignores s)"
    then have f: "ts_fill s = s" by (intro ts_fill_fixed) simp
    with a have "ts_next s = s" by (simp add: ts_next_def)
    with Skip.IH a show False by simp
  qed
qed

lemma ts_Get_reaches_EOS:
  "ts_Get s = Some y \<Longrightarrow>
   \<forall>t. fst y = Inr t \<and> \<not> ts_IsEOS s \<and> ts_IsEOS (snd y)
     \<longrightarrow> t = last (tokens (snd y)) \<and> ts_offset (snd y) = length (tokens (snd y)) - 1"
proof (induction rule: ts_Get_induct)
  case (IndexError s)
  then show ?case by simp
next
  case (Return s)
  show ?case
  proof (intro allI impI)
    fix t
    assume a: "fst (Inr (tokens (ts_fill s) ! ts_offset s), ts_next s) = Inr t
        \<and> \<not> ts_IsEOS s \<and> ts_IsEOS (snd (Inr (tokens (ts_fill s) ! ts_offset s), ts_next s))"
    then have e: "ts_IsEOS (ts_fill s)" and n: "\<not> ts_IsEOS s"
      and t: "t = tokens (ts_fill s) ! ts_offset s" by simp_all
    from ts_fill_new_EOS [OF n e Return(1)] have o: "ts_offset s = length (tokens (ts_fill s)) - 1" .
    from e have "tokens (ts_fill s) \<noteq> []" by (auto simp: ts_IsEOS_def)
    with o t e show "t = last (tokens (snd (Inr (tokens (ts_fill s) ! ts_offset s), ts_next s)))
        \<and> ts_offset (snd (Inr (tokens (ts_fill s) ! ts_offset s), ts_next s))
          = length (tokens (snd (Inr (tokens (ts_fill s) ! ts_offset s), ts_next s))) - 1"
      by (simp add: last_conv_nth ts_next_def)
  qed
next
  case (Skip s y)
  show ?case
  proof (intro allI impI)
    fix t assume a: "fst y = Inr t \<and> \<not> ts_IsEOS s \<and> ts_IsEOS (snd y)"
    show "t = last (tokens (snd y)) \<and> ts_offset (snd y) = length (tokens (snd y)) - 1"
    proof (cases "ts_IsEOS (ts_fill s)")
      case False
      with Skip.IH a show ?thesis by simp
    next
      case True
      from a have n: "\<not> ts_IsEOS s" by simp
      from ts_fill_new_EOS [OF n True Skip.hyps(1)]
      have o: "ts_offset s = length (tokens (ts_fill s)) - 1" .
      from True have ne: "tokens (ts_fill s) \<noteq> []" by (auto simp: ts_IsEOS_def)
      have "ts_IsEOS (ts_next s) \<and> ts_offset (ts_next s) = length (tokens (ts_next s)) - 1
          \<and> patternID (last (tokens (ts_next s))) \<in> set (ignores (ts_next s))"
        using True o ne Skip.hyps(2) by (simp add: last_conv_nth ts_next_offset)
      with ts_Get_ignored_EOS [OF Skip.hyps(3)] show ?thesis by simp
    qed
  qed
qed

lemma ts_Get_again:
  "ts_Get s = Some y \<Longrightarrow>
   \<forall>t. fst y = Inr t \<longrightarrow> ts_Get ((snd y)\<lparr>ts_offset := ts_offset s\<rparr>) = Some (Inr t, snd y)"
proof (induction rule: ts_Get_induct)
  case (IndexError s)
  then show ?case by simp
next
  case (Return s)
  have u: "(ts_next s)\<lparr>ts_offset := ts_offset s\<rparr> = ts_fill s"
    by (simp add: ts_next_def)
  have f: "ts_fill (ts_fill s) = ts_fill s" using Return(1) by (intro ts_fill_fixed) simp
  have n: "ts_next (ts_fill s) = ts_next s" by (simp add: ts_next_def f)
  have "ts_Get (ts_fill s) = Some (Inr (tokens (ts_fill s) ! ts_offset s), ts_next s)"
    using Return by (subst ts_Get_unfold) (simp add: f n)
  then show ?case by (simp add: u)
next
  case (Skip s y)
  show ?case
  proof (intro allI impI)
    fix t assume t: "fst y = Inr t"
    let ?s0 = "snd y" and ?o = "ts_offset s"
    let ?u = "?s0\<lparr>ts_offset := ?o\<rparr>"
    have y: "ts_Get (ts_next s) = Some (Inr t, ?s0)" using Skip.hyps(3) t by (cases y) simp
    from ts_Get_prefix [OF Skip.hyps(3)] obtain ext where
      ext: "tokens ?s0 = tokens (ts_fill s) @ ext" by auto
    from ts_Get_frame [OF Skip.hyps(3)] have ig: "ignores ?s0 = ignores s" by simp
    have lt: "?o < length (tokens ?s0)" using ext Skip.hyps(1) by simp
    have fu: "ts_fill ?u = ?u" using lt by (intro ts_fill_fixed) simp
    have tok: "tokens ?s0 ! ?o = tokens (ts_fill s) ! ?o"
      using ext Skip.hyps(1) by (simp add: nth_append)
    have eos_u: "ts_IsEOS ?u = ts_IsEOS ?s0" by (rule ts_IsEOS_cong) simp
    have nu: "ts_next ?u = ?s0\<lparr>ts_offset :=
        (if ts_IsEOS ?s0 then length (tokens ?s0) - 1 else ?o + 1)\<rparr>"
      by (simp add: ts_next_def fu eos_u)
    have step: "ts_Get ?u = ts_Get (ts_next ?u)"
      using lt tok Skip.hyps(2) ig by (subst ts_Get_unfold) (simp add: fu)
    have IH: "ts_Get (?s0\<lparr>ts_offset := ts_offset (ts_next s)\<rparr>) = Some (Inr t, ?s0)"
      using Skip.IH t by simp
    have "ts_Get (ts_next ?u) = Some (Inr t, ?s0)"
    proof (cases "ts_IsEOS (ts_fill s)")
      case True
      then have "ts_IsEOS (ts_next s)" by simp
      with ts_Get_at_EOS [OF Skip.hyps(3)] have same: "tokens ?s0 = tokens (ts_fill s)" by simp
      then have "ts_IsEOS ?s0" using True by (simp add: ts_IsEOS_def)
      with same True IH nu show ?thesis by (simp add: ts_next_def)
    next
      case False
      show ?thesis
      proof (cases "ts_IsEOS ?s0")
        case f0: False
        with False IH nu show ?thesis by (simp add: ts_next_def)
      next
        case True
        have "\<not> ts_IsEOS (ts_next s)" using False by simp
        with ts_Get_reaches_EOS [OF Skip.hyps(3)] t True
        have tl: "t = last (tokens ?s0)" and ol: "ts_offset ?s0 = length (tokens ?s0) - 1"
          by simp_all
        from ts_Get_not_ignored [OF Skip.hyps(3)] t have ni: "patternID t \<notin> set (ignores s)"
          by simp
        from True have ne: "tokens ?s0 \<noteq> []" by (auto simp: ts_IsEOS_def)
        have nu0: "ts_next ?u = ?s0" using nu True ol by simp
        have f0: "ts_fill ?s0 = ?s0" using True by (intro ts_fill_fixed) simp
        have n0: "ts_next ?s0 = ?s0" using True ol by (simp add: ts_next_def f0)
        have "ts_Get ?s0 = Some (Inr t, ?s0)"
          using ne ol tl ni ig by (subst ts_Get_unfold) (simp add: f0 n0 last_conv_nth)
        with nu0 show ?thesis by simp
      qed
    qed
    with step show "ts_Get ?u = Some (Inr t, snd y)" by simp
  qed
qed

lemma ts_Peek_again:
  assumes "ts_Peek s = Some (Inr t, s')"
  shows "ts_Peek s' = Some (Inr t, s')"
proof -
  from assms obtain s0 where g: "ts_Get s = Some (Inr t, s0)" and s': "s' = s0\<lparr>ts_offset := ts_offset s\<rparr>"
    by (auto simp: ts_Peek_def split: option.splits sum.splits prod.splits)
  from ts_Get_again [OF g] have "ts_Get s' = Some (Inr t, s0)" by (simp add: s')
  then show ?thesis by (simp add: ts_Peek_def s')
qed

lemma ts_GetPosition_again:
  assumes "ts_GetPosition s = Some (Inr here, s')"
  shows "ts_GetPosition s' = Some (Inr here, s')"
proof -
  from assms obtain t where "ts_Peek s = Some (Inr t, s')" and "here = position t"
    by (auto simp: ts_GetPosition_def split: option.splits sum.splits prod.splits)
  with ts_Peek_again [of s t s'] show ?thesis by (simp add: ts_GetPosition_def)
qed

lemma parse_except_position:
  assumes "parse_except name off e s = Some (Inl (ParserError p msg), s')"
  shows "ts_GetPosition s' = Some (Inr p, s')"
proof (cases e)
  case (ParserError p0 msg0)
  with assms obtain r s2 where g: "ts_GetPosition (ts_SetOffset s off) = Some (r, s2)"
    by (cases "ts_GetPosition (ts_SetOffset s off)") (auto simp: parse_except_def)
  show ?thesis
  proof (cases r)
    case (Inl e')
    with g have "e' = IndexError" by (auto dest: ts_GetPosition_error)
    with assms ParserError g Inl show ?thesis by (simp add: parse_except_def)
  next
    case (Inr here)
    with assms ParserError g have "s' = s2" and "p = here"
      by (simp_all add: parse_except_def Combine_def)
    with g Inr show ?thesis by (auto intro: ts_GetPosition_again)
  qed
qed (use assms in \<open>auto simp: parse_except_def\<close>)

lemma Parser_parse_position:
  assumes "Parser_parse body name tr ign s = Some (Inl (ParserError p msg), s')"
  shows "ts_GetPosition s' = Some (Inr p, s')"
  using assms
  by (auto simp: Parser_parse_def Let_def
      split: option.splits sum.splits prod.splits dest: parse_except_position)

lemma parse_failure_position:
  "parse n G p s = Some (Inl (ParserError epos msg), sf)
   \<Longrightarrow> ts_GetPosition sf = Some (Inr epos, sf)"
proof (induction n arbitrary: p)
  case 0
  then show ?case by simp
next
  case (Suc n)
  show ?case
  proof (cases p)
    case (Lazy name key)
    with Suc.prems show ?thesis by (cases "G key") (auto dest: Suc.IH)
  qed (use Suc.prems in \<open>auto dest: Parser_parse_position\<close>)
qed

subsection \<open>Quantified\<close>

lemma Quantified_loop_failure:
  assumes "repeated sub k s = Some (rs, sk)"
    and "sub sk = Some (Inl (ParserError epos msg), sf)"
    and "case mx of None \<Rightarrow> True | Some m \<Rightarrow> int (length acc + k) < m"
    and "k < fuel"
  shows "Quantified_loop fuel sub name mn mx acc s =
     (if int (length acc + k) < mn
      then (case ts_GetPosition sf of
              None \<Rightarrow> None
            | Some (Inl e, s'') \<Rightarrow> Some (Inl e, s'')
            | Some (Inr here, s'') \<Rightarrow>
                Some (Inl (Combine here (at_least_msg mn name (length acc + k)) epos msg), s''))
      else Some (Inr (acc @ rs), sf))"
  using assms
proof (induction k arbitrary: s rs acc fuel)
  case 0
  then obtain fuel' where fuel: "fuel = Suc fuel'" by (cases fuel) auto
  from 0 have "s = sk" and "rs = []" by simp_all
  with 0 fuel show ?case by (simp split: option.splits sum.splits prod.splits)
next
  case (Suc k)
  then obtain fuel' where fuel: "fuel = Suc fuel'" by (cases fuel) auto
  from Suc.prems(1) obtain r s1 rs' where
    r: "sub s = Some (Inr r, s1)" and rest: "repeated sub k s1 = Some (rs', sk)"
    and rs: "rs = r # rs'"
    by (auto split: option.splits sum.splits prod.splits)
  have mx1: "case mx of None \<Rightarrow> True | Some m \<Rightarrow> int (length (acc @ [r]) + k) < m"
    using Suc.prems(3) by (simp split: option.splits)
  have mx0: "case mx of None \<Rightarrow> True | Some m \<Rightarrow> int (length acc) < m"
    using Suc.prems(3) by (auto split: option.splits)
  have "k < fuel'" using Suc.prems(4) fuel by simp
  note IH = Suc.IH [OF rest Suc.prems(2) mx1 this]
  have len: "length (acc @ [r]) + k = length acc + Suc k" by simp
  from IH [unfolded len] r mx0 fuel rs show ?case by simp
qed

lemma repeated_length: "repeated sub k s = Some (rs, sk) \<Longrightarrow> length rs = k"
  by (induction k arbitrary: s rs) (auto split: option.splits sum.splits prod.splits)

text \<open>
  Claim C7. Let the sub-parser of a \<^verbatim>\<open>Quantified\<close> node succeed \<open>k\<close> times in a row and then
  raise a \<^verbatim>\<open>Parser.Error\<close>, before the maximum (if there is one) is reached. Given fuel
  for \<open>k + 1\<close> turns of the loop, \<^verbatim>\<open>Quantified._parse\<close> returns: if \<open>k\<close> is below the minimum
  it raises the error that combines its expectation of at least \<open>minimum\<close> repetitions
  (found only \<open>k\<close>) with the error of the failed attempt; otherwise it returns the \<open>k\<close>
  results. Either way the stream is the one the failed attempt left, whose cursor is
  where that attempt began. (\<^verbatim>\<open>parse\<close> of the node calls \<^verbatim>\<open>_parse\<close> with the sub-parser
  \<open>parse n G p\<close> and the fuel \<open>n\<close>.)
\<close>

theorem Quantified_minimum:
  assumes "repeated (parse n G p) k s = Some (rs, sk)"
    and "parse n G p sk = Some (Inl (ParserError epos msg), sf)"
    and "case maximum of None \<Rightarrow> True | Some m \<Rightarrow> int k < m"
    and "k < fuel"
  shows "Quantified_parse fuel (parse n G p) (GetName p) minimum maximum start s =
           (if int k < minimum
            then Some (Inl (Combine epos (at_least_msg minimum (GetName p) k) epos msg), sf)
            else Some (Inr (results_value start rs), sf))
         \<and> ts_GetOffset sf = ts_GetOffset sk \<and> length rs = k"
proof -
  have mx: "case maximum of None \<Rightarrow> True | Some m \<Rightarrow> int (length ([]::Result list) + k) < m"
    using assms(3) by (cases maximum) simp_all
  note loop = Quantified_loop_failure [OF assms(1,2) mx assms(4), of "GetName p" minimum]
  note here = parse_failure_position [OF assms(2)]
  have "Quantified_parse fuel (parse n G p) (GetName p) minimum maximum start s =
           (if int k < minimum
            then Some (Inl (Combine epos (at_least_msg minimum (GetName p) k) epos msg), sf)
            else Some (Inr (results_value start rs), sf))"
    using loop here by (simp add: Quantified_parse_def)
  moreover have "ts_GetOffset sf = ts_GetOffset sk"
    using parse_restores_cursor [OF assms(2)] by (simp add: ts_GetOffset_def)
  moreover have "length rs = k" using assms(1) by (rule repeated_length)
  ultimately show ?thesis by simp
qed

lemma term_a_ok:
  "parse (Suc 0) G term_a (ab_ts 0 0 [])
     = Some (Inr (\<lparr>line = 1, column = 1\<rparr>, VStr ''a''), ab_ts 1 1 [tokA])"
  by (simp add: term_a_def ab_eval)

lemma term_a_fails:
  "parse (Suc 0) G term_a (ab_ts 1 1 [tokA])
     = Some (Inl (ParserError \<lparr>line = 1, column = 2\<rparr>
          (''Unable to parse a'' @ [newline]
           @ ''Error @ (1, 2): Expected , but found B(b)'')), ab_ts 2 1 [tokA, tokB])"
  by (simp add: term_a_def ab_eval)

theorem Quantified_minimum_witness:
  "repeated (parse (Suc 0) Map.empty term_a) (Suc 0) (ab_ts 0 0 [])
     = Some ([(\<lparr>line = 1, column = 1\<rparr>, VStr ''a'')], ab_ts 1 1 [tokA])
   \<and> Quantified_parse 2 (parse (Suc 0) Map.empty term_a) ''a'' 2 None \<lparr>line = 1, column = 1\<rparr>
        (ab_ts 0 0 [])
     = Some (Inl (ParserError \<lparr>line = 1, column = 2\<rparr>
          (''Expected at least 2 '' @ [CHR 0x27] @ ''a'' @ [CHR 0x27] @ '', but found only 1''
           @ [newline] @ ''Error @ (1, 2): Unable to parse a''
           @ [newline] @ ''Error @ (1, 2): Expected , but found B(b)'')),
        ab_ts 2 1 [tokA, tokB])
   \<and> Quantified_parse 2 (parse (Suc 0) Map.empty term_a) ''a'' 1 None \<lparr>line = 1, column = 1\<rparr>
        (ab_ts 0 0 [])
     = Some (Inr (\<lparr>line = 1, column = 1\<rparr>, VList [VResult \<lparr>line = 1, column = 1\<rparr> (VStr ''a'')]),
        ab_ts 2 1 [tokA, tokB])
   \<and> ts_GetOffset (ab_ts 2 1 [tokA, tokB]) = 1"
proof -
  let ?sub = "parse (Suc 0) Map.empty term_a"
  have h1: "repeated ?sub (Suc 0) (ab_ts 0 0 [])
     = Some ([(\<lparr>line = 1, column = 1\<rparr>, VStr ''a'')], ab_ts 1 1 [tokA])"
    by (simp add: term_a_ok)
  have h3: "case None :: int option of None \<Rightarrow> True | Some m \<Rightarrow> int (Suc 0) < m" by simp
  have h4: "Suc 0 < 2" by simp
  have nm: "GetName term_a = ''a''" by (simp add: term_a_def)
  note Q = Quantified_minimum [OF h1 term_a_fails h3 h4, unfolded nm]
  have a: "Quantified_parse 2 ?sub ''a'' 2 None \<lparr>line = 1, column = 1\<rparr> (ab_ts 0 0 [])
     = Some (Inl (ParserError \<lparr>line = 1, column = 2\<rparr>
          (''Expected at least 2 '' @ [CHR 0x27] @ ''a'' @ [CHR 0x27] @ '', but found only 1''
           @ [newline] @ ''Error @ (1, 2): Unable to parse a''
           @ [newline] @ ''Error @ (1, 2): Expected , but found B(b)'')),
        ab_ts 2 1 [tokA, tokB])"
    using Q [of 2 "\<lparr>line = 1, column = 1\<rparr>"]
    by (simp add: Combine_def at_least_msg_def Expectation_msg_def Error_str_def
        Position_str_def str_int_def str_nat.simps)
  have b: "Quantified_parse 2 ?sub ''a'' 1 None \<lparr>line = 1, column = 1\<rparr> (ab_ts 0 0 [])
     = Some (Inr (\<lparr>line = 1, column = 1\<rparr>, VList [VResult \<lparr>line = 1, column = 1\<rparr> (VStr ''a'')]),
        ab_ts 2 1 [tokA, tokB])"
    using Q [of 1 "\<lparr>line = 1, column = 1\<rparr>"]
    by (simp add: results_value_def to_val_def)
  have c: "ts_GetOffset (ab_ts 2 1 [tokA, tokB]) = 1"
    by (simp add: ts_GetOffset_def ab_ts_def)
  from h1 a b c show ?thesis by simp
qed

subsection \<open>Separated\<close>

lemma Parser_parse_ok:
  assumes "parse_enter ign s = Some (Inr st, s1)"
    and "body st s1 = Some (Inr r, s2)"
    and "apply_transformer tr (snd r) = Inr v"
  shows "Parser_parse body name tr ign s = Some (Inr (fst r, v), s2)"
  using assms
  by (auto simp: Parser_parse_def parse_enter_def Let_def
      split: option.splits sum.splits prod.splits)

lemma result_values_to_val: "result_values (map to_val rs) = Inr (map snd rs)"
  by (induction rs) (simp_all add: to_val_def)

lemma Sequence_parse_two:
  assumes "f s = Some (Inr r1, s1)" and "g s1 = Some (Inr r2, s2)"
  shows "Sequence_parse [f, g] st s = Some (Inr (fst r1, VList [to_val r1, to_val r2]), s2)"
  using assms by (simp add: Sequence_parse_def results_value_def)

lemma appendage_ok:
  assumes "parse_enter ign u = Some (Inr st, u1)"
    and "parse m G sep u1 = Some (Inr rsep, u2)"
    and "parse m G val u2 = Some (Inr rval, u3)"
  shows "parse (Suc m) G (Separated_appendage name val sep ign) u
           = Some (Inr (fst rsep, to_val rval), u3)"
proof -
  have "Sequence_parse [parse m G sep, parse m G val] st u1
      = Some (Inr (fst rsep, VList [to_val rsep, to_val rval]), u3)"
    using assms(2,3) by (rule Sequence_parse_two)
  from Parser_parse_ok [where body = "Sequence_parse [parse m G sep, parse m G val]"
      and name = name and tr = "Some appendage_transformer" and v = "to_val rval",
      OF assms(1) this]
  show ?thesis by (simp add: Separated_appendage_def apply_transformer_def py_index_def)
qed

lemma tail_ok:
  assumes "parse_enter ign s2 = Some (Inr st1, s3)"
    and "repeated (parse (Suc m) G (Separated_appendage name val sep ign)) k s3 = Some (rs, sk)"
    and "parse (Suc m) G (Separated_appendage name val sep ign) sk
           = Some (Inl (ParserError epos msg), sf)"
    and "k \<le> m"
  shows "parse (Suc (Suc m)) G (Separated_tail name val sep ign) s2
           = Some (Inr (fst (results_value st1 rs), VList (map snd rs)), sf)"
proof -
  let ?app = "Separated_appendage name val sep ign"
  have mx: "case None :: int option of None \<Rightarrow> True
      | Some x \<Rightarrow> int (length ([]::Result list) + k) < x" by simp
  have fuel: "k < Suc m" using assms(4) by simp
  have "Quantified_loop (Suc m) (parse (Suc m) G ?app) (GetName ?app) 0 None [] s3
      = Some (Inr rs, sf)"
    using Quantified_loop_failure [OF assms(2,3) mx fuel, of "GetName ?app" 0] by simp
  then have body: "Quantified_parse (Suc m) (parse (Suc m) G ?app) (GetName ?app) 0 None st1 s3
      = Some (Inr (results_value st1 rs), sf)"
    by (simp add: Quantified_parse_def)
  have tr: "apply_transformer (Some tail_transformer) (snd (results_value st1 rs))
      = Inr (VList (map snd rs))"
    by (simp add: apply_transformer_def results_value_def result_values_to_val)
  from Parser_parse_ok [where body = "Quantified_parse (Suc m) (parse (Suc m) G ?app)
        (GetName ?app) 0 None" and name = name, OF assms(1) body tr]
  show ?thesis by (simp add: Separated_tail_def AtLeast0_def)
qed

lemma separated_ok:
  assumes "parse_enter ign s = Some (Inr st0, s1)"
    and "parse (Suc (Suc m)) G val s1 = Some (Inr r0, s2)"
    and "parse_enter ign s2 = Some (Inr st1, s3)"
    and "repeated (parse (Suc m) G (Separated_appendage name val sep ign)) k s3 = Some (rs, sk)"
    and "parse (Suc m) G (Separated_appendage name val sep ign) sk
           = Some (Inl (ParserError epos msg), sf)"
    and "k \<le> m"
  shows "parse (Suc (Suc (Suc m))) G (Separated_parser name val sep ign) s
           = Some (Inr (fst r0, VList (to_val r0 # map snd rs)), sf)"
proof -
  note t = tail_ok [OF assms(3-6)]
  have body: "Sequence_parse [parse (Suc (Suc m)) G val,
        parse (Suc (Suc m)) G (Separated_tail name val sep ign)] st0 s1
      = Some (Inr (fst r0, VList [to_val r0,
            to_val (fst (results_value st1 rs), VList (map snd rs))]), sf)"
    using assms(2) t by (rule Sequence_parse_two)
  have tr: "apply_transformer (Some separated_transformer)
        (snd (fst r0, VList [to_val r0, to_val (fst (results_value st1 rs), VList (map snd rs))]))
      = Inr (VList (to_val r0 # map snd rs))"
    by (simp add: apply_transformer_def py_index_def to_val_def)
  from Parser_parse_ok [where body = "Sequence_parse [parse (Suc (Suc m)) G val,
        parse (Suc (Suc m)) G (Separated_tail name val sep ign)]" and name = name,
      OF assms(1) body tr]
  show ?thesis by (simp add: Separated_parser_def)
qed

subsection \<open>A token stream over the text aba\<close>

lemma aba_init: "TokenStream_init ab_lexer ''aba'' None = Inr (aba_ts 0 0 [])"
  by (simp add: TokenStream_init_def aba_ts_def aba_ss_def StringStream_init_def
      sio_readlines_def Let_def newline_def)

lemma Lex_aba:
  "Lex ab_lexer (aba_ss 0) = (tokA, aba_ss (Suc 0))"
  "Lex ab_lexer (aba_ss (Suc 0)) = (tokB, aba_ss 2)"
  "Lex ab_lexer (aba_ss 2) = (tokA3, aba_ss 3)"
  "Lex ab_lexer (aba_ss 3) = (tokE4, aba_ss 3)"
  by (simp_all add: Lex_def aba_ss_def ab_lexer_def Lexer_init_def Let_def ss_GetPosition_def
      ss_GetOffset_def sio_tell_def ss_IsEOS_def PeekRemainder_def sio_read_def re_literal_def
      Ignore_def tokA_def tokB_def tokA3_def tokE4_def Option.is_none_def)

lemmas aba_eval = ts_Get.simps ts_fill.simps aba_ts_def Lex_aba ts_IsEOS_def Let_def tokA_def
      tokB_def tokA3_def tokE4_def EOS_PATTERN_ID_def ts_Peek_def ts_GetPosition_def
      skip_ignored.simps Parser_parse_def Terminal_parse_def ts_GetOffset_def ts_SetOffset_def
      parse_except_def apply_transformer_def Sequence_parse_def results_value_def to_val_def
      Expectation_def Expectation_msg_def Combine_def Error_str_def Position_str_def
      str_int_def str_nat.simps parse_enter_def term_a_def term_b_def

lemma aba_enter_0:
  "parse_enter [] (aba_ts 0 0 []) = Some (Inr \<lparr>line = 1, column = 1\<rparr>, aba_ts 1 0 [tokA])"
  by (simp add: aba_eval)

lemma aba_value_0:
  "parse (Suc 0) G term_a (aba_ts 1 0 [tokA])
     = Some (Inr (\<lparr>line = 1, column = 1\<rparr>, VStr ''a''), aba_ts 1 1 [tokA])"
  by (simp add: aba_eval)

lemma aba_enter_1:
  "parse_enter [] (aba_ts 1 1 [tokA])
     = Some (Inr \<lparr>line = 1, column = 2\<rparr>, aba_ts 2 1 [tokA, tokB])"
  by (simp add: aba_eval)

lemma aba_pair_2:
  "parse (Suc (Suc 0)) G (Separated_appendage ''items'' term_a term_b [])
       (aba_ts 3 3 [tokA, tokB, tokA3])
     = Some (Inl (ParserError \<lparr>line = 1, column = 4\<rparr>
          (''Unable to parse items'' @ [newline]
           @ ''Error @ (1, 4): Unable to parse b'' @ [newline]
           @ ''Error @ (1, 4): Expected , but found <EOS>'')),
         aba_ts 3 3 [tokA, tokB, tokA3, tokE4])"
  by (simp add: aba_eval Separated_appendage_def py_index_def)

lemma aba_no_value:
  "parse (Suc (Suc (Suc 0))) G (Separated_parser ''items'' term_b term_a []) (aba_ts 0 0 [])
     = Some (Inl (ParserError \<lparr>line = 1, column = 1\<rparr>
          (''Unable to parse items'' @ [newline]
           @ ''Error @ (1, 1): Unable to parse b'' @ [newline]
           @ ''Error @ (1, 1): Expected , but found A(a)'')),
         aba_ts 1 0 [tokA])"
  by (simp add: aba_eval Separated_parser_def py_index_def)

lemma Parser_parse_raise:
  assumes "parse_enter ign s = Some (Inr st, s1)"
    and "body st s1 = Some (Inl (ParserError p e), s2)"
  shows "Parser_parse body name tr ign s
           = parse_except name (ts_GetOffset s) (ParserError p e) s2"
  using assms
  by (auto simp: Parser_parse_def parse_enter_def Let_def
      split: option.splits sum.splits prod.splits)

lemma ts_GetPosition_cached:
  "ts_GetPosition s = Some (Inr p, s') \<Longrightarrow> ts_offset s < length (tokens s')"
  by (auto simp: ts_GetPosition_def split: option.splits sum.splits prod.splits
      dest: ts_Peek_cached)

lemma separated_no_value:
  assumes "parse_enter ign s = Some (Inr st0, s1)"
    and "ts_offset s1 = ts_offset s"
    and "parse (Suc m) G val s1 = Some (Inl (ParserError p e), s2)"
  shows "parse (Suc (Suc m)) G (Separated_parser name val sep ign) s
           = Some (Inl (Combine p (''Unable to parse '' @ name) p e), s2)"
proof -
  let ?body = "Sequence_parse [parse (Suc m) G val,
        parse (Suc m) G (Separated_tail name val sep ign)]"
  have body: "?body st0 s1 = Some (Inl (ParserError p e), s2)"
    using assms(3) by (simp add: Sequence_parse_def)
  note here = parse_failure_position [OF assms(3)]
  have off: "ts_offset s2 = ts_offset s"
    using parse_restores_cursor [OF assms(3)] assms(2) by simp
  have "ts_offset s2 < length (tokens s2)" using here by (rule ts_GetPosition_cached)
  then have so: "ts_SetOffset s2 (ts_GetOffset s) = s2"
    using off by (simp add: ts_SetOffset_def ts_GetOffset_def)
  have "Parser_parse ?body name (Some separated_transformer) ign s
      = parse_except name (ts_GetOffset s) (ParserError p e) s2"
    using assms(1) body by (rule Parser_parse_raise)
  also have "\<dots> = Some (Inl (Combine p (''Unable to parse '' @ name) p e), s2)"
    by (simp add: parse_except_def so here)
  finally show ?thesis by (simp add: Separated_parser_def)
qed

lemma aba_no_value_0:
  "parse (Suc 0) G term_b (aba_ts 1 0 [tokA])
     = Some (Inl (ParserError \<lparr>line = 1, column = 1\<rparr>
          (''Unable to parse b'' @ [newline]
           @ ''Error @ (1, 1): Expected , but found A(a)'')),
         aba_ts 1 0 [tokA])"
  by (simp add: aba_eval)

lemma aba_enter_2:
  "parse_enter [] (aba_ts 2 1 [tokA, tokB])
     = Some (Inr \<lparr>line = 1, column = 2\<rparr>, aba_ts 2 1 [tokA, tokB])"
  by (simp add: aba_eval)

lemma aba_separator:
  "parse (Suc 0) G term_b (aba_ts 2 1 [tokA, tokB])
     = Some (Inr (\<lparr>line = 1, column = 2\<rparr>, VStr ''b''), aba_ts 2 2 [tokA, tokB])"
  by (simp add: aba_eval)

lemma aba_value_2:
  "parse (Suc 0) G term_a (aba_ts 2 2 [tokA, tokB])
     = Some (Inr (\<lparr>line = 1, column = 3\<rparr>, VStr ''a''), aba_ts 3 3 [tokA, tokB, tokA3])"
  by (simp add: aba_eval)

subsection \<open>More fuel changes no result\<close>

lemma extendsD: "extends f g \<Longrightarrow> f s = Some y \<Longrightarrow> g s = Some y"
  unfolding extends_def by blast

lemma extendsI: "(\<And>s y. f s = Some y \<Longrightarrow> g s = Some y) \<Longrightarrow> extends f g"
  unfolding extends_def by blast

lemma Parser_parse_extends:
  assumes "\<And>st. extends (b st) (b' st)"
  shows "extends (Parser_parse b name tr ign) (Parser_parse b' name tr ign)"
proof (rule extendsI)
  fix s y
  assume P: "Parser_parse b name tr ign s = Some y"
  show "Parser_parse b' name tr ign s = Some y"
  proof (cases "skip_ignored ign s")
    case None
    with P show ?thesis by (simp add: Parser_parse_def Let_def)
  next
    case (Some a)
    obtain r1 s1 where a: "a = (r1, s1)" by (cases a)
    show ?thesis
    proof (cases r1)
      case (Inl e)
      with P Some a show ?thesis by (simp add: Parser_parse_def Let_def)
    next
      case (Inr u)
      show ?thesis
      proof (cases "ts_GetPosition s1")
        case None
        with P Some a Inr show ?thesis by (simp add: Parser_parse_def Let_def)
      next
        case gp: (Some c)
        obtain r2 s2 where c: "c = (r2, s2)" by (cases c)
        show ?thesis
        proof (cases r2)
          case (Inl e)
          with P Some a Inr gp c show ?thesis by (simp add: Parser_parse_def Let_def)
        next
          case st: (Inr st)
          show ?thesis
          proof (cases "b st s2")
            case None
            with P Some a Inr gp c st show ?thesis by (simp add: Parser_parse_def Let_def)
          next
            case b: (Some d)
            from extendsD [OF assms b] have "b' st s2 = Some d" .
            with P Some a Inr gp c st b show ?thesis by (simp add: Parser_parse_def Let_def)
          qed
        qed
      qed
    qed
  qed
qed

lemma Sequence_loop_extends:
  assumes "list_all2 extends fs gs" and "Sequence_loop fs acc s = Some y"
  shows "Sequence_loop gs acc s = Some y"
  using assms
proof (induction fs gs arbitrary: acc s rule: list_all2_induct)
  case Nil
  then show ?case by simp
next
  case (Cons f fs g gs)
  from Cons.prems obtain d where f: "f s = Some d" by (cases "f s") auto
  from extendsD [OF Cons.hyps(1) f] have g: "g s = Some d" .
  obtain r1 s1 where d: "d = (r1, s1)" by (cases d)
  show ?case
  proof (cases r1)
    case (Inl e)
    with Cons.prems f g d show ?thesis by simp
  next
    case (Inr x)
    with Cons.prems f d have "Sequence_loop fs (acc @ [x]) s1 = Some y" by simp
    from Cons.IH [OF this] g d Inr show ?thesis by simp
  qed
qed

lemma Sequence_parse_extends:
  assumes "list_all2 extends fs gs"
  shows "extends (Sequence_parse fs st) (Sequence_parse gs st)"
proof (rule extendsI)
  fix s y assume a: "Sequence_parse fs st s = Some y"
  then obtain d where l: "Sequence_loop fs [] s = Some d"
    by (cases "Sequence_loop fs [] s") (auto simp: Sequence_parse_def)
  from Sequence_loop_extends [OF assms l] a l show "Sequence_parse gs st s = Some y"
    by (simp add: Sequence_parse_def)
qed

lemma Choice_loop_extends:
  assumes "list_all2 (\<lambda>f g. fst f = fst g \<and> extends (snd f) (snd g)) fs gs"
    and "Choice_loop fs tag ex s = Some y"
  shows "Choice_loop gs tag ex s = Some y"
  using assms
proof (induction fs gs arbitrary: s rule: list_all2_induct)
  case Nil
  then show ?case by simp
next
  case (Cons nf fs ng gs)
  obtain name f where nf: "nf = (name, f)" by (cases nf)
  obtain name' g where ng: "ng = (name', g)" by (cases ng)
  from Cons.hyps(1) nf ng have nm: "name' = name" and e: "extends f g" by simp_all
  from Cons.prems nf obtain d where f: "f s = Some d" by (cases "f s") auto
  from extendsD [OF e f] have g: "g s = Some d" .
  obtain r1 s1 where d: "d = (r1, s1)" by (cases d)
  show ?case
  proof (cases r1)
    case (Inr x)
    with Cons.prems nf ng nm f g d show ?thesis by simp
  next
    case (Inl er)
    show ?thesis
    proof (cases "\<exists>p msg. er = ParserError p msg")
      case True
      with Cons.prems nf f d Inl have "Choice_loop fs tag ex s1 = Some y" by auto
      from Cons.IH [OF this] True ng g d Inl show ?thesis by auto
    next
      case False
      with Cons.prems nf ng f g d Inl show ?thesis by (cases er) auto
    qed
  qed
qed

lemma Choice_parse_extends:
  assumes "list_all2 (\<lambda>f g. fst f = fst g \<and> extends (snd f) (snd g)) fs gs"
  shows "extends (Choice_parse fs tag st) (Choice_parse gs tag st)"
proof (rule extendsI)
  fix s y assume a: "Choice_parse fs tag st s = Some y"
  have "map fst fs = map fst gs"
    using assms by (induction fs gs rule: list_all2_induct) simp_all
  with Choice_loop_extends [OF assms] a show "Choice_parse gs tag st s = Some y"
    by (simp add: Choice_parse_def)
qed

lemma Quantified_loop_extends:
  assumes "extends sub sub'"
    and "Quantified_loop fuel sub name mn mx acc s = Some y" and "fuel \<le> fuel'"
  shows "Quantified_loop fuel' sub' name mn mx acc s = Some y"
  using assms(2,3)
proof (induction fuel arbitrary: fuel' acc s)
  case 0
  then show ?case by simp
next
  case (Suc fuel)
  then obtain f' where f': "fuel' = Suc f'" and le: "fuel \<le> f'" by (cases fuel') auto
  show ?case
  proof (cases "case mx of None \<Rightarrow> True | Some m \<Rightarrow> int (length acc) < m")
    case False
    with Suc.prems f' show ?thesis by simp
  next
    case True
    with Suc.prems obtain d where s: "sub s = Some d" by (cases "sub s") auto
    from extendsD [OF assms(1) s] have s': "sub' s = Some d" .
    obtain r1 s1 where d: "d = (r1, s1)" by (cases d)
    show ?thesis
    proof (cases r1)
      case (Inr x)
      with Suc.prems True s d
      have "Quantified_loop fuel sub name mn mx (acc @ [x]) s1 = Some y" by simp
      from Suc.IH [OF this le] True s' d Inr f' show ?thesis by simp
    next
      case (Inl er)
      with Suc.prems True s s' d f' show ?thesis by simp
    qed
  qed
qed

lemma Quantified_parse_extends:
  assumes "extends sub sub'" and "fuel \<le> fuel'"
  shows "extends (Quantified_parse fuel sub name mn mx st) (Quantified_parse fuel' sub' name mn mx st)"
proof (rule extendsI)
  fix s y assume a: "Quantified_parse fuel sub name mn mx st s = Some y"
  then obtain d where l: "Quantified_loop fuel sub name mn mx [] s = Some d"
    by (cases "Quantified_loop fuel sub name mn mx [] s") (auto simp: Quantified_parse_def)
  from Quantified_loop_extends [OF assms(1) l assms(2)] a l
  show "Quantified_parse fuel' sub' name mn mx st s = Some y"
    by (simp add: Quantified_parse_def)
qed

lemma Separated_parse_extends:
  assumes "extends f g"
  shows "extends (Separated_parse f st) (Separated_parse g st)"
proof (rule extendsI)
  fix s y assume a: "Separated_parse f st s = Some y"
  then obtain d where l: "f s = Some d" by (cases "f s") (auto simp: Separated_parse_def)
  from extendsD [OF assms l] a l show "Separated_parse g st s = Some y"
    by (simp add: Separated_parse_def)
qed

lemma parse_extends: "n \<le> n' \<Longrightarrow> extends (parse n G p) (parse n' G p)"
proof (induction n arbitrary: n' p)
  case 0
  show ?case by (simp add: extends_def)
next
  case (Suc n)
  then obtain k where k: "n' = Suc k" and le: "n \<le> k" by (cases n') auto
  note IH = Suc.IH [OF le]
  show ?case
  proof (cases p)
    case (Lazy name key)
    show ?thesis
    proof (cases "G key")
      case None
      with Lazy k show ?thesis by (simp add: extends_def)
    next
      case (Some q)
      with Lazy k IH [of q] show ?thesis by (simp add: extends_def)
    qed
  next
    case (Terminal name pid v tr ign)
    with k show ?thesis by (simp add: extends_def)
  next
    case (Sequence name ps tr ign)
    have "list_all2 extends (map (parse n G) ps) (map (parse k G) ps)"
      by (simp add: list_all2_map1 list_all2_map2 list_all2_same IH)
    then have "extends (Parser_parse (Sequence_parse (map (parse n G) ps)) name tr ign)
        (Parser_parse (Sequence_parse (map (parse k G) ps)) name tr ign)"
      by (intro Parser_parse_extends Sequence_parse_extends)
    with Sequence k show ?thesis by (simp add: extends_def)
  next
    case (Choice name ps tag tr ign)
    have "list_all2 (\<lambda>f g. fst f = fst g \<and> extends (snd f) (snd g))
        (map (\<lambda>p. (GetName p, parse n G p)) ps) (map (\<lambda>p. (GetName p, parse k G p)) ps)"
      by (simp add: list_all2_map1 list_all2_map2 list_all2_same IH)
    then have "extends
        (Parser_parse (Choice_parse (map (\<lambda>p. (GetName p, parse n G p)) ps) tag) name tr ign)
        (Parser_parse (Choice_parse (map (\<lambda>p. (GetName p, parse k G p)) ps) tag) name tr ign)"
      by (intro Parser_parse_extends Choice_parse_extends)
    with Choice k show ?thesis by (simp add: extends_def)
  next
    case (Quantified name q mn mx tr ign)
    have "extends (Parser_parse (Quantified_parse n (parse n G q) (GetName q) mn mx) name tr ign)
        (Parser_parse (Quantified_parse k (parse k G q) (GetName q) mn mx) name tr ign)"
      by (intro Parser_parse_extends Quantified_parse_extends IH le)
    with Quantified k show ?thesis by (simp add: extends_def)
  next
    case (Separated name val sep tr ign)
    have "extends
        (Parser_parse (Separated_parse (parse n G (Separated_parser name val sep ign))) name tr ign)
        (Parser_parse (Separated_parse (parse k G (Separated_parser name val sep ign))) name tr ign)"
      by (intro Parser_parse_extends Separated_parse_extends IH)
    with Separated k show ?thesis by (simp add: extends_def)
  qed
qed

lemma parse_more_fuel:
  "parse n G p s = Some y \<Longrightarrow> n \<le> n' \<Longrightarrow> parse n' G p s = Some y"
  by (rule extendsD [OF parse_extends])

text \<open>
  Claim C8. Below, the value and separator parsers are given fuel \<open>m\<close> and the nodes
  around them the fuel their nested calls need on top of it; more fuel changes no result.
  (1) When the parser a \<^verbatim>\<open>Separated\<close> node builds, a value followed by
  (separator, value) pairs, raises a \<^verbatim>\<open>Parser.Error\<close>, \<^verbatim>\<open>Separated._parse\<close> returns the
  empty list at the start position, and the cursor is where it was. (2) That parser
  raises a \<^verbatim>\<open>Parser.Error\<close>, and \<^verbatim>\<open>Separated._parse\<close> returns the empty list, when the
  first value does not parse (shown where the node has no ignored token to skip first).
  (3) When the first value parses, \<open>k\<close> (separator, value) pairs parse after it and the
  next pair raises a \<^verbatim>\<open>Parser.Error\<close>, \<^verbatim>\<open>Separated._parse\<close> returns, at the position of
  the first value, the list of the result of the first value and the values of the \<open>k\<close>
  pairs, and the stream is the one the failed pair left, its cursor before that pair.
  (4) The value of a pair is the result of its value parser: the result of the separator
  is dropped.
\<close>

theorem Separated_empty_or_values:
  "(parse n G (Separated_parser name val sep ign) s = Some (Inl (ParserError epos msg), s')
      \<longrightarrow> Separated_parse (parse n G (Separated_parser name val sep ign)) start s
            = Some (Inr (start, VList []), s')
          \<and> ts_GetOffset s' = ts_GetOffset s)
   \<and> (parse_enter ign s = Some (Inr st0, s1) \<and> ts_offset s1 = ts_offset s
       \<and> parse m G val s1 = Some (Inl (ParserError epos1 msg1), s2)
      \<longrightarrow> Separated_parse (parse (Suc (Suc m)) G (Separated_parser name val sep ign)) start s
            = Some (Inr (start, VList []), s2)
          \<and> ts_GetOffset s2 = ts_GetOffset s)
   \<and> (parse_enter ign s = Some (Inr st0, s1)
       \<and> parse m G val s1 = Some (Inr r0, s2)
       \<and> parse_enter ign s2 = Some (Inr st1, s3)
       \<and> repeated (parse (Suc m) G (Separated_appendage name val sep ign)) k s3 = Some (rs, sk)
       \<and> parse (Suc m) G (Separated_appendage name val sep ign) sk
            = Some (Inl (ParserError epos2 msg2), sf)
       \<and> k \<le> m
      \<longrightarrow> Separated_parse (parse (Suc (Suc (Suc m))) G (Separated_parser name val sep ign)) start s
            = Some (Inr (fst r0, VList (to_val r0 # map snd rs)), sf)
          \<and> ts_GetOffset sf = ts_GetOffset sk \<and> length rs = k)
   \<and> (parse_enter ign u = Some (Inr st, u1)
       \<and> parse m G sep u1 = Some (Inr rsep, u2) \<and> parse m G val u2 = Some (Inr rval, u3)
      \<longrightarrow> parse (Suc m) G (Separated_appendage name val sep ign) u
            = Some (Inr (fst rsep, to_val rval), u3))"
proof (intro conjI impI)
  assume f: "parse n G (Separated_parser name val sep ign) s
      = Some (Inl (ParserError epos msg), s')"
  then show "Separated_parse (parse n G (Separated_parser name val sep ign)) start s
      = Some (Inr (start, VList []), s')"
    by (simp add: Separated_parse_def)
  from parse_restores_cursor [OF f] show "ts_GetOffset s' = ts_GetOffset s"
    by (simp add: ts_GetOffset_def)
next
  assume a: "parse_enter ign s = Some (Inr st0, s1) \<and> ts_offset s1 = ts_offset s
       \<and> parse m G val s1 = Some (Inl (ParserError epos1 msg1), s2)"
  then have v: "parse (Suc m) G val s1 = Some (Inl (ParserError epos1 msg1), s2)"
    by (auto intro: parse_more_fuel)
  with a have "parse (Suc (Suc m)) G (Separated_parser name val sep ign) s
      = Some (Inl (Combine epos1 (''Unable to parse '' @ name) epos1 msg1), s2)"
    by (intro separated_no_value [where ?s1.0 = s1 and ?st0.0 = st0]) simp_all
  then show "Separated_parse (parse (Suc (Suc m)) G (Separated_parser name val sep ign)) start s
      = Some (Inr (start, VList []), s2)"
    by (simp add: Separated_parse_def Combine_def)
  from a parse_restores_cursor [OF v]
  show "ts_GetOffset s2 = ts_GetOffset s" by (simp add: ts_GetOffset_def)
next
  assume a: "parse_enter ign s = Some (Inr st0, s1)
       \<and> parse m G val s1 = Some (Inr r0, s2)
       \<and> parse_enter ign s2 = Some (Inr st1, s3)
       \<and> repeated (parse (Suc m) G (Separated_appendage name val sep ign)) k s3 = Some (rs, sk)
       \<and> parse (Suc m) G (Separated_appendage name val sep ign) sk
            = Some (Inl (ParserError epos2 msg2), sf)
       \<and> k \<le> m"
  then have "parse (Suc (Suc m)) G val s1 = Some (Inr r0, s2)"
    by (auto intro: parse_more_fuel)
  with a have "parse (Suc (Suc (Suc m))) G (Separated_parser name val sep ign) s
           = Some (Inr (fst r0, VList (to_val r0 # map snd rs)), sf)"
    by (intro separated_ok [where ?s1.0 = s1 and ?s2.0 = s2 and ?s3.0 = s3 and sk = sk
          and k = k and ?st0.0 = st0 and ?st1.0 = st1 and epos = epos2 and msg = msg2]) simp_all
  then show "Separated_parse (parse (Suc (Suc (Suc m))) G (Separated_parser name val sep ign))
        start s = Some (Inr (fst r0, VList (to_val r0 # map snd rs)), sf)"
    by (simp add: Separated_parse_def)
  from a parse_restores_cursor [of "Suc m" G "Separated_appendage name val sep ign" sk epos2 msg2 sf]
  show "ts_GetOffset sf = ts_GetOffset sk" by (simp add: ts_GetOffset_def)
  from a show "length rs = k" by (auto dest: repeated_length)
next
  assume "parse_enter ign u = Some (Inr st, u1)
       \<and> parse m G sep u1 = Some (Inr rsep, u2) \<and> parse m G val u2 = Some (Inr rval, u3)"
  then show "parse (Suc m) G (Separated_appendage name val sep ign) u
            = Some (Inr (fst rsep, to_val rval), u3)"
    by (intro appendage_ok [where ?u1.0 = u1 and ?u2.0 = u2 and st = st]) simp_all
qed

theorem Separated_empty_or_values_witness:
  "Separated_parse (parse (Suc (Suc (Suc 0))) Map.empty (Separated_parser ''items'' term_b term_a []))
       \<lparr>line = 1, column = 1\<rparr> (aba_ts 0 0 [])
     = Some (Inr (\<lparr>line = 1, column = 1\<rparr>, VList []), aba_ts 1 0 [tokA])
   \<and> ts_GetOffset (aba_ts 1 0 [tokA]) = ts_GetOffset (aba_ts 0 0 [])
   \<and> parse (Suc (Suc 0)) Map.empty (Separated_appendage ''items'' term_a term_b [])
       (aba_ts 2 1 [tokA, tokB])
     = Some (Inr (\<lparr>line = 1, column = 2\<rparr>, VResult \<lparr>line = 1, column = 3\<rparr> (VStr ''a'')),
         aba_ts 3 3 [tokA, tokB, tokA3])
   \<and> Separated_parse
       (parse (Suc (Suc (Suc (Suc 0)))) Map.empty (Separated_parser ''items'' term_a term_b []))
       \<lparr>line = 1, column = 1\<rparr> (aba_ts 0 0 [])
     = Some (Inr (\<lparr>line = 1, column = 1\<rparr>,
                  VList [VResult \<lparr>line = 1, column = 1\<rparr> (VStr ''a''),
                         VResult \<lparr>line = 1, column = 3\<rparr> (VStr ''a'')]),
             aba_ts 3 3 [tokA, tokB, tokA3, tokE4])
   \<and> ts_GetOffset (aba_ts 3 3 [tokA, tokB, tokA3, tokE4]) = 3"
proof -
  let ?G = "Map.empty :: string \<Rightarrow> Parser option"
  let ?app = "Separated_appendage ''items'' term_a term_b []"
  note T = Separated_empty_or_values [where G = ?G and name = "''items''" and ign = "[]"
      and start = "\<lparr>line = 1, column = 1\<rparr>" and s = "aba_ts 0 0 []" and m = "Suc 0"]
  have o: "ts_offset (aba_ts 1 0 [tokA]) = ts_offset (aba_ts 0 0 [])"
    by (simp add: aba_ts_def)
  note T1 = T [where n = "Suc (Suc (Suc 0))" and val = term_b and sep = term_a
      and s' = "aba_ts 1 0 [tokA]", THEN conjunct1, rule_format, OF aba_no_value]
  note T2 = T [where val = term_b and sep = term_a and ?s1.0 = "aba_ts 1 0 [tokA]"
      and ?s2.0 = "aba_ts 1 0 [tokA]", THEN conjunct2, THEN conjunct1, rule_format,
      OF conjI [OF aba_enter_0 conjI [OF o aba_no_value_0]]]
  note T4 = T [where val = term_a and sep = term_b and u = "aba_ts 2 1 [tokA, tokB]"
      and ?u1.0 = "aba_ts 2 1 [tokA, tokB]" and ?u2.0 = "aba_ts 2 2 [tokA, tokB]",
      THEN conjunct2, THEN conjunct2, THEN conjunct2, rule_format,
      OF conjI [OF aba_enter_2 conjI [OF aba_separator aba_value_2]]]
  have pair: "parse (Suc (Suc 0)) ?G ?app (aba_ts 2 1 [tokA, tokB])
     = Some (Inr (\<lparr>line = 1, column = 2\<rparr>, VResult \<lparr>line = 1, column = 3\<rparr> (VStr ''a'')),
         aba_ts 3 3 [tokA, tokB, tokA3])"
    using T4 by (simp add: to_val_def)
  have rep: "repeated (parse (Suc (Suc 0)) ?G ?app) (Suc 0) (aba_ts 2 1 [tokA, tokB])
      = Some ([(\<lparr>line = 1, column = 2\<rparr>, VResult \<lparr>line = 1, column = 3\<rparr> (VStr ''a''))],
          aba_ts 3 3 [tokA, tokB, tokA3])"
    using pair by simp
  note T3 = T [where k = "Suc 0" and val = term_a and sep = term_b
      and ?s1.0 = "aba_ts 1 0 [tokA]" and ?s2.0 = "aba_ts 1 1 [tokA]"
      and ?s3.0 = "aba_ts 2 1 [tokA, tokB]" and sk = "aba_ts 3 3 [tokA, tokB, tokA3]"
      and sf = "aba_ts 3 3 [tokA, tokB, tokA3, tokE4]",
      THEN conjunct2, THEN conjunct2, THEN conjunct1, rule_format,
      OF conjI [OF aba_enter_0 conjI [OF aba_value_0 conjI [OF aba_enter_1
            conjI [OF rep conjI [OF aba_pair_2 le_refl]]]]]]
  have off: "ts_GetOffset (aba_ts 3 3 [tokA, tokB, tokA3, tokE4]) = 3"
    by (simp add: ts_GetOffset_def aba_ts_def)
  from T1 T2 T3 pair off show ?thesis by (simp add: to_val_def)
qed

end
